theory Spec2Isabelle
  imports Main "HOL-Library.Word" "HOL-Library.List_Lexorder" "HOL-Library.Sublist"
    "HOL-Library.AList" "HOL-Library.Monad_Syntax"
begin

section \<open>JavaScript strings\<close>

text \<open>
  A JavaScript string is a sequence of 16-bit UTF-16 code units; the regular expressions of
  the test file carry no \<open>u\<close> flag, so they see code units. \<open>js\<close> turns an ASCII literal of
  the theory into such a string.
\<close>

type_synonym cu = "16 word"
type_synonym jsstring = "cu list"

definition js :: "string \<Rightarrow> jsstring" where
  "js s = map of_char s"

section \<open>Regular expressions of the test file\<close>

text \<open>
  The character predicates of ECMAScript: \<open>\s\<close> (white space and line terminators),
  \<open>\w\<close> (\<open>[A-Za-z0-9_]\<close>) and the line terminators that \<open>.\<close> refuses.
\<close>

definition isLineTerminator :: "cu \<Rightarrow> bool" where
  "isLineTerminator c \<longleftrightarrow> c = 0x0A \<or> c = 0x0D \<or> c = 0x2028 \<or> c = 0x2029"

definition isWhiteSpace :: "cu \<Rightarrow> bool" where
  "isWhiteSpace c \<longleftrightarrow>
     c = 0x09 \<or> c = 0x0A \<or> c = 0x0B \<or> c = 0x0C \<or> c = 0x0D \<or> c = 0x20 \<or> c = 0xA0 \<or>
     c = 0x1680 \<or> (0x2000 \<le> c \<and> c \<le> 0x200A) \<or> c = 0x2028 \<or> c = 0x2029 \<or>
     c = 0x202F \<or> c = 0x205F \<or> c = 0x3000 \<or> c = 0xFEFF"

definition isWordChar :: "cu \<Rightarrow> bool" where
  "isWordChar c \<longleftrightarrow>
     (0x30 \<le> c \<and> c \<le> 0x39) \<or> (0x41 \<le> c \<and> c \<le> 0x5A) \<or> (0x61 \<le> c \<and> c \<le> 0x7A) \<or> c = 0x5F"

text \<open>
  The one-character atoms the source's patterns use: \<open>.\<close>, \<open>[\s\S]\<close>, \<open>\s\<close>, \<open>\w\<close> and
  the negated classes \<open>[^)]\<close>, \<open>[^}]\<close>, \<open>[^;]\<close>.
\<close>

datatype cclass = Dot | AnyCu | Space | WordC | Except cu

fun inClass :: "cclass \<Rightarrow> cu \<Rightarrow> bool" where
  "inClass Dot c = (\<not> isLineTerminator c)"
| "inClass AnyCu c = True"
| "inClass Space c = isWhiteSpace c"
| "inClass WordC c = isWordChar c"
| "inClass (Except d) c = (c \<noteq> d)"

text \<open>
  The patterns: a literal text, one character of a class, a class under \<open>*\<close> (greedy) or
  \<open>*?\<close> (lazy), a sequence, an alternative, the assertion \<open>\b\<close> and a capture group. Every
  quantifier of the source stands on a one-character atom, and \<open>x+\<close> is \<open>xx*\<close>.
\<close>

datatype regex =
    Lit jsstring
  | Cls cclass
  | Star cclass
  | LazyStar cclass
  | Seq regex regex
  | Alt regex regex
  | WordBoundary
  | Group nat regex

definition Plus :: "cclass \<Rightarrow> regex" where
  "Plus k = Seq (Cls k) (Star k)"

fun seqs :: "regex list \<Rightarrow> regex" where
  "seqs [] = Lit []"
| "seqs [r] = r"
| "seqs (r # rs) = Seq r (seqs rs)"

text \<open>
  A matcher state: the code unit before the current position (none at the start of the
  input), the input from the current position on, and the captures made so far.
\<close>

datatype mstate = MState (before: "cu option") (rest: jsstring) (caps: "(nat \<times> jsstring) list")

text \<open>
  The backtracking matcher gives every way a pattern matches at the current position, in
  the order in which ECMAScript's matcher tries them: a greedy star tries the longest
  repetition first, a lazy star the shortest, an alternative its left side first. The
  first element is the match that \<open>exec\<close> reports.
\<close>

fun starGreedy :: "cclass \<Rightarrow> cu option \<Rightarrow> jsstring \<Rightarrow> (cu option \<times> jsstring) list" where
  "starGreedy k p [] = [(p, [])]"
| "starGreedy k p (x # xs) =
     (if inClass k x then starGreedy k (Some x) xs @ [(p, x # xs)] else [(p, x # xs)])"

fun starLazy :: "cclass \<Rightarrow> cu option \<Rightarrow> jsstring \<Rightarrow> (cu option \<times> jsstring) list" where
  "starLazy k p [] = [(p, [])]"
| "starLazy k p (x # xs) =
     (if inClass k x then (p, x # xs) # starLazy k (Some x) xs else [(p, x # xs)])"

definition isWordAt :: "cu option \<Rightarrow> bool" where
  "isWordAt p = (case p of None \<Rightarrow> False | Some c \<Rightarrow> isWordChar c)"

definition nextCu :: "jsstring \<Rightarrow> cu option" where
  "nextCu xs = (case xs of [] \<Rightarrow> None | x # _ \<Rightarrow> Some x)"

fun rmatch :: "regex \<Rightarrow> mstate \<Rightarrow> mstate list" where
  "rmatch (Lit w) s =
     (if prefix w (rest s)
      then [MState (if w = [] then before s else Some (last w)) (drop (length w) (rest s)) (caps s)]
      else [])"
| "rmatch (Cls k) s =
     (case rest s of
        [] \<Rightarrow> []
      | x # xs \<Rightarrow> if inClass k x then [MState (Some x) xs (caps s)] else [])"
| "rmatch (Star k) s = map (\<lambda>(p, xs). MState p xs (caps s)) (starGreedy k (before s) (rest s))"
| "rmatch (LazyStar k) s = map (\<lambda>(p, xs). MState p xs (caps s)) (starLazy k (before s) (rest s))"
| "rmatch (Seq a b) s = concat (map (rmatch b) (rmatch a s))"
| "rmatch (Alt a b) s = rmatch a s @ rmatch b s"
| "rmatch WordBoundary s = (if isWordAt (before s) \<noteq> isWordAt (nextCu (rest s)) then [s] else [])"
| "rmatch (Group n r) s =
     map (\<lambda>s'. MState (before s') (rest s')
                  ((n, take (length (rest s) - length (rest s')) (rest s)) # caps s'))
         (rmatch r s)"

text \<open>\<open>exec\<close> at one position: the first match in the matcher's order, if any.\<close>

definition execAt :: "regex \<Rightarrow> cu option \<Rightarrow> jsstring \<Rightarrow> mstate option" where
  "execAt r p xs = (case rmatch r (MState p xs []) of [] \<Rightarrow> None | m # _ \<Rightarrow> Some m)"

text \<open>
  \<open>RegExp.prototype.test\<close> of a pattern without the \<open>g\<close> flag (what \<open>toMatch\<close> and
  \<open>callPattern.test\<close> run): the first position from the left at which the pattern matches.
\<close>

fun searchFrom :: "regex \<Rightarrow> cu option \<Rightarrow> jsstring \<Rightarrow> bool" where
  "searchFrom r p [] = (execAt r p [] \<noteq> None)"
| "searchFrom r p (x # xs) = (if execAt r p (x # xs) \<noteq> None then True else searchFrom r (Some x) xs)"

definition regexTest :: "regex \<Rightarrow> jsstring \<Rightarrow> bool" where
  "regexTest r text = searchFrom r None text"

text \<open>
  \<open>String.prototype.replace\<close> with a \<open>g\<close> pattern and a replacement text: scanning from the
  left, every match is replaced and the scan goes on behind it; after an empty match the
  scan moves one code unit on, which is copied.
\<close>

function replaceFrom :: "regex \<Rightarrow> jsstring \<Rightarrow> cu option \<Rightarrow> jsstring \<Rightarrow> jsstring" where
  "replaceFrom r new p xs =
     (case execAt r p xs of
        Some m \<Rightarrow>
          if length (rest m) < length xs then new @ replaceFrom r new (before m) (rest m)
          else (case xs of [] \<Rightarrow> new | y # ys \<Rightarrow> new @ y # replaceFrom r new (Some y) ys)
      | None \<Rightarrow> (case xs of [] \<Rightarrow> [] | y # ys \<Rightarrow> y # replaceFrom r new (Some y) ys))"
  by pat_completeness auto
termination
  by (relation "measure (\<lambda>(r, new, p, xs). length xs)") auto

definition replaceAllG :: "regex \<Rightarrow> jsstring \<Rightarrow> jsstring \<Rightarrow> jsstring" where
  "replaceAllG r new text = replaceFrom r new None text"

text \<open>
  The matches of a \<open>g\<close> pattern as \<open>matchAll\<close> and \<open>match\<close> enumerate them: each with the
  text it matched and its captures.
\<close>

datatype jsmatch = JsMatch (matched: jsstring) (groups: "(nat \<times> jsstring) list")

definition capture :: "jsmatch \<Rightarrow> nat \<Rightarrow> jsstring" where
  "capture m n = (case map_of (groups m) n of None \<Rightarrow> [] | Some w \<Rightarrow> w)"

function matchesFrom :: "regex \<Rightarrow> cu option \<Rightarrow> jsstring \<Rightarrow> jsmatch list" where
  "matchesFrom r p xs =
     (case execAt r p xs of
        Some m \<Rightarrow>
          if length (rest m) < length xs
          then JsMatch (take (length xs - length (rest m)) xs) (caps m) # matchesFrom r (before m) (rest m)
          else (case xs of
                  [] \<Rightarrow> [JsMatch [] (caps m)]
                | y # ys \<Rightarrow> JsMatch [] (caps m) # matchesFrom r (Some y) ys)
      | None \<Rightarrow> (case xs of [] \<Rightarrow> [] | y # ys \<Rightarrow> matchesFrom r (Some y) ys))"
  by pat_completeness auto
termination
  by (relation "measure (\<lambda>(r, p, xs). length xs)") auto

definition matchAll :: "regex \<Rightarrow> jsstring \<Rightarrow> jsmatch list" where
  "matchAll r text = matchesFrom r None text"

text \<open>\<open>String.prototype.match\<close> with a \<open>g\<close> pattern: \<open>null\<close> when nothing matches.\<close>

definition stringMatch :: "regex \<Rightarrow> jsstring \<Rightarrow> jsstring list option" where
  "stringMatch r text = (case matchAll r text of [] \<Rightarrow> None | ms \<Rightarrow> Some (map matched ms))"

section \<open>The validation pipeline\<close>

subsection \<open>Configuration and errors\<close>

definition EXPECTED_COUNT :: nat where
  "EXPECTED_COUNT = 1000000"

definition MAX_FILE_SIZE :: nat where
  "MAX_FILE_SIZE = 1000"

definition ALLOWED_FILENAMES :: "jsstring list" where
  "ALLOWED_FILENAMES = [js ''main.js'', js ''main.cjs'', js ''main.mjs'', js ''main.ts'', js ''main.coffee'']"

text \<open>
  The failures of the pipeline, as values. The three errors that \<open>findMainFile\<close> throws are
  the structural errors; \<open>FileSystemError\<close> is the system error that \<open>readdirSync\<close> or
  \<open>statSync\<close> throws, with its code; \<open>SizeExceeded\<close>, \<open>BannedConstruct\<close> and \<open>CountMismatch\<close> are failed
  \<open>expect\<close> assertions; \<open>SelfRecursion\<close> names the function of the thrown message and
  \<open>ExecutionFailed\<close> carries the message of the rejection.
\<close>

datatype banned = BannedFor | BannedWhile | BannedForEach

datatype errno = ENOENT | EACCES | ELOOP | ENOTDIR | EIO

datatype error =
    NoFileInDirectory
  | SeveralFilesInDirectory "jsstring list"
  | FileNameNotAllowed jsstring
  | FileSystemError errno
  | SizeExceeded nat
  | BannedConstruct banned
  | SelfRecursion jsstring
  | ExecutionFailed jsstring
  | CountMismatch nat

fun isStructuralError :: "error \<Rightarrow> bool" where
  "isStructuralError NoFileInDirectory = True"
| "isStructuralError (SeveralFilesInDirectory fs) = True"
| "isStructuralError (FileNameNotAllowed f) = True"
| "isStructuralError e = False"

subsection \<open>Directory scanner\<close>

text \<open>
  What \<open>statSync\<close> reports of a name: the kind of what it names.
\<close>

datatype kind = RegularFile | Directory | OtherKind

type_synonym dirent = "jsstring \<times> kind"

definition isFile :: "kind \<Rightarrow> bool" where
  "isFile k = (k = RegularFile)"

definition isDirectory :: "kind \<Rightarrow> bool" where
  "isDirectory k = (k = Directory)"

text \<open>
  An entry's directory as \<open>findMainFile\<close> meets it. \<open>readdirSync\<close> throws or gives the names
  in listing order; \<open>statSync\<close> of a name throws (a dangling link, a missing permission) or
  gives its kind.
\<close>

datatype stat = Stats kind | StatThrows errno

datatype directory = Unreadable errno | Listing "(jsstring \<times> stat) list"

text \<open>
  \<open>readdirSync(dirPath).filter((f) => statSync(join(dirPath, f)).isFile())\<close>: the names are
  examined in order, and the first \<open>statSync\<close> that throws ends the filter with its error.
\<close>

fun filterFiles :: "(jsstring \<times> stat) list \<Rightarrow> error + jsstring list" where
  "filterFiles [] = Inr []"
| "filterFiles ((f, StatThrows e) # es) = Inl (FileSystemError e)"
| "filterFiles ((f, Stats k) # es) =
     (case filterFiles es of
        Inl e \<Rightarrow> Inl e
      | Inr files \<Rightarrow> Inr (if isFile k then f # files else files))"

text \<open>\<open>findMainFile\<close> of the test file.\<close>

definition findMainFile :: "directory \<Rightarrow> error + jsstring" where
  "findMainFile dir =
     (case dir of
        Unreadable e \<Rightarrow> Inl (FileSystemError e)
      | Listing es \<Rightarrow>
          (case filterFiles es of
             Inl e \<Rightarrow> Inl e
           | Inr files \<Rightarrow>
               if length files = 0 then Inl NoFileInDirectory
               else if length files > 1 then Inl (SeveralFilesInDirectory files)
               else (let fileName = files ! 0 in
                     if fileName \<notin> set ALLOWED_FILENAMES then Inl (FileNameNotAllowed fileName)
                     else Inr fileName)))"

text \<open>\<open>findMainFile\<close> of \<open>scripts/run-interactive.js\<close>, a second copy with its own allow-list.\<close>

definition ALLOWED_FILENAMES_interactive :: "jsstring list" where
  "ALLOWED_FILENAMES_interactive =
     [js ''main.js'', js ''main.cjs'', js ''main.mjs'', js ''main.ts'', js ''main.coffee'']"

definition findMainFile_interactive :: "directory \<Rightarrow> error + jsstring" where
  "findMainFile_interactive dir =
     (case dir of
        Unreadable e \<Rightarrow> Inl (FileSystemError e)
      | Listing es \<Rightarrow>
          (case filterFiles es of
             Inl e \<Rightarrow> Inl e
           | Inr files \<Rightarrow>
               if length files = 0 then Inl NoFileInDirectory
               else if length files > 1 then Inl (SeveralFilesInDirectory files)
               else (let fileName = files ! 0 in
                     if fileName \<notin> set ALLOWED_FILENAMES_interactive
                     then Inl (FileNameNotAllowed fileName)
                     else Inr fileName)))"

text \<open>
  The entries: the subdirectories of \<open>src\<close>, sorted as \<open>Array.prototype.sort\<close> sorts strings
  (by code units, a proper prefix first). The script computes them when it is loaded, before
  any mode is entered, so \<open>srcDir\<close> is a listing that \<open>readdirSync\<close> and \<open>statSync\<close> have
  given: the names, each with its kind.
\<close>

definition entryDirs :: "dirent list \<Rightarrow> jsstring list" where
  "entryDirs srcDir = sort (map fst (filter (\<lambda>(name, k). isDirectory k) srcDir))"

subsection \<open>Interpreter command\<close>

text \<open>\<open>getRunCommand\<close> of the test file, and the environment its \<open>spawn\<close> adds.\<close>

definition getRunCommand :: "jsstring \<Rightarrow> jsstring list" where
  "getRunCommand fileName =
     (if fileName = js ''main.ts'' then [js ''npx'', js ''ts-node'', js ''--esm'']
      else if fileName = js ''main.coffee'' then [js ''npx'', js ''coffee'']
      else [js ''node''])"

definition spawnEnv :: "jsstring \<Rightarrow> (jsstring \<times> jsstring) list" where
  "spawnEnv fileName =
     (if fileName = js ''main.ts'' then [(js ''NODE_OPTIONS'', js ''--loader ts-node/esm'')] else [])"

text \<open>\<open>getRunCommand\<close> of \<open>scripts/run-interactive.js\<close>; its \<open>spawn\<close> adds no environment.\<close>

definition getRunCommand_interactive :: "jsstring \<Rightarrow> jsstring list" where
  "getRunCommand_interactive fileName =
     (if fileName = js ''main.ts'' then [js ''npx'', js ''ts-node'']
      else if fileName = js ''main.coffee'' then [js ''npx'', js ''coffee'']
      else [js ''node''])"

subsection \<open>Static rule checker\<close>

text \<open>The size test: \<open>statSync(filePath).size\<close> is the number of bytes of the file.\<close>

definition statSize :: "8 word list \<Rightarrow> nat" where
  "statSize bytes = length bytes"

definition sizeTest :: "8 word list \<Rightarrow> error + unit" where
  "sizeTest bytes =
     (let fileSize = statSize bytes in
      if fileSize \<le> MAX_FILE_SIZE then Inr () else Inl (SizeExceeded fileSize))"

text \<open>
  The keyword test. The patterns are \<open>/\/\*[\s\S]*?\*\//g\<close>, \<open>/\/\/.*/g\<close>, \<open>/\bfor\s*\(/\<close>,
  \<open>/\bwhile\s*\(/\<close> and \<open>/\.forEach\s*\(/\<close>.
\<close>

definition blockCommentRegex :: regex where
  "blockCommentRegex = seqs [Lit (js ''/*''), LazyStar AnyCu, Lit (js ''*/'')]"

definition lineCommentRegex :: regex where
  "lineCommentRegex = seqs [Lit (js ''//''), Star Dot]"

definition forRegex :: regex where
  "forRegex = seqs [WordBoundary, Lit (js ''for''), Star Space, Lit (js ''('')]"

definition whileRegex :: regex where
  "whileRegex = seqs [WordBoundary, Lit (js ''while''), Star Space, Lit (js ''('')]"

definition forEachRegex :: regex where
  "forEachRegex = seqs [Lit (js ''.forEach''), Star Space, Lit (js ''('')]"

definition codeWithoutComments :: "jsstring \<Rightarrow> jsstring" where
  "codeWithoutComments fileContent =
     replaceAllG lineCommentRegex [] (replaceAllG blockCommentRegex [] fileContent)"

definition keywordTest :: "jsstring \<Rightarrow> error + unit" where
  "keywordTest fileContent =
     (let code = codeWithoutComments fileContent in
      if regexTest forRegex code then Inl (BannedConstruct BannedFor)
      else if regexTest whileRegex code then Inl (BannedConstruct BannedWhile)
      else if regexTest forEachRegex code then Inl (BannedConstruct BannedForEach)
      else Inr ())"

text \<open>
  The recursion test. The patterns are \<open>/function\s+(\w+)\s*\([^)]*\)\s*{([^}]*)}/g\<close> and
  \<open>/(?:const|let|var)\s+(\w+)\s*=\s*\([^)]*\)\s*=>\s*([^;]+)/g\<close>; \<open>callPattern\<close> is
  \<open>\bNAME\s*\(\<close>, where the name, a match of \<open>\w+\<close>, holds no pattern syntax.
\<close>

definition functionRegex :: regex where
  "functionRegex =
     seqs [Lit (js ''function''), Plus Space, Group 1 (Plus WordC), Star Space,
           Lit (js ''(''), Star (Except 0x29), Lit (js '')''), Star Space,
           Lit (js ''{''), Group 2 (Star (Except 0x7D)), Lit (js ''}'')]"

definition arrowRegex :: regex where
  "arrowRegex =
     seqs [Alt (Lit (js ''const'')) (Alt (Lit (js ''let'')) (Lit (js ''var''))), Plus Space,
           Group 1 (Plus WordC), Star Space, Lit (js ''=''), Star Space,
           Lit (js ''(''), Star (Except 0x29), Lit (js '')''), Star Space,
           Lit (js ''=>''), Star Space, Group 2 (Plus (Except 0x3B))]"

definition callPattern :: "jsstring \<Rightarrow> regex" where
  "callPattern name = seqs [WordBoundary, Lit name, Star Space, Lit (js ''('')]"

text \<open>
  \<open>functionBodies\<close> is a \<open>Map\<close>: \<open>set\<close> on a key it holds replaces the value and keeps the key's
  place, \<open>set\<close> on a new key appends it, and \<open>forEach\<close> visits the keys in that order.
\<close>

fun setAll :: "(jsstring \<times> jsstring) list \<Rightarrow> jsmatch list \<Rightarrow> (jsstring \<times> jsstring) list" where
  "setAll bodies [] = bodies"
| "setAll bodies (m # ms) = setAll (AList.update (capture m 1) (capture m 2) bodies) ms"

definition functionBodies :: "jsstring \<Rightarrow> (jsstring \<times> jsstring) list" where
  "functionBodies fileContent =
     setAll (setAll [] (matchAll functionRegex fileContent)) (matchAll arrowRegex fileContent)"

fun checkBodies :: "(jsstring \<times> jsstring) list \<Rightarrow> error + unit" where
  "checkBodies [] = Inr ()"
| "checkBodies ((name, body) # bodies) =
     (if regexTest (callPattern name) body then Inl (SelfRecursion name) else checkBodies bodies)"

definition recursionTest :: "jsstring \<Rightarrow> error + unit" where
  "recursionTest fileContent = checkBodies (functionBodies fileContent)"

subsection \<open>Execution runner and output verifier\<close>

text \<open>
  What a child process does, as the runner sees it: chunks of text on its two streams, then
  the \<open>close\<close> event with its exit code (\<open>null\<close>, here \<open>None\<close>, when a signal ended it).
\<close>

datatype chunk = StdoutData jsstring | StderrData jsstring

record buffers =
  stdout :: jsstring
  stderr :: jsstring

fun onData :: "chunk \<Rightarrow> buffers \<Rightarrow> buffers" where
  "onData (StdoutData d) b = b\<lparr>stdout := stdout b @ d\<rparr>"
| "onData (StderrData d) b = b\<lparr>stderr := stderr b @ d\<rparr>"

definition executionFailedMessage :: jsstring where
  "executionFailedMessage =
     [0x30D7, 0x30ED, 0x30BB, 0x30B9, 0x304C, 0x30A8, 0x30E9, 0x30FC, 0x3067, 0x7D42, 0x4E86,
      0x3057, 0x307E, 0x3057, 0x305F, 0x3A, 0x20]"

definition onClose :: "int option \<Rightarrow> buffers \<Rightarrow> error + jsstring" where
  "onClose code b =
     (if code \<noteq> Some 0 then Inl (ExecutionFailed (executionFailedMessage @ stderr b))
      else Inr (stdout b))"

definition runChild :: "chunk list \<Rightarrow> int option \<Rightarrow> error + jsstring" where
  "runChild chunks code = onClose code (fold onData chunks \<lparr>stdout = [], stderr = []\<rparr>)"

definition helloRegex :: regex where
  "helloRegex = Lit (js ''Hello, World!'')"

definition countTest :: "jsstring \<Rightarrow> error + unit" where
  "countTest output =
     (let matches = stringMatch helloRegex output;
          count = (case matches of Some ms \<Rightarrow> length ms | None \<Rightarrow> 0)
      in if count = EXPECTED_COUNT then Inr () else Inl (CountMismatch count))"

definition outputTest :: "chunk list \<Rightarrow> int option \<Rightarrow> error + unit" where
  "outputTest chunks code =
     (case runChild chunks code of Inl e \<Rightarrow> Inl e | Inr output \<Rightarrow> countTest output)"

section \<open>The interactive dispatcher\<close>

text \<open>
  The world of a run of \<open>runAll\<close>: the working directory, \<open>path.join\<close>, what the directory at
  a path holds, and the exit code with which the process of a \<open>spawn\<close> call ends (\<open>null\<close>,
  here \<open>None\<close>, when a signal ended it). The trace lists what happens, in order: the entry
  announced on the console, the \<open>spawn\<close> call with its command and arguments (the call
  passes \<open>shell: true\<close>), the \<open>exit\<close> event with its code, an error written to the console.
  The run ends with \<open>process.exit(code)\<close> or, behind the last entry, by returning.
\<close>

record world =
  cwd :: jsstring
  pathJoin :: "jsstring list \<Rightarrow> jsstring"
  readDir :: "jsstring \<Rightarrow> directory"
  exitCode :: "jsstring list \<Rightarrow> int option"

datatype event =
    Announced jsstring
  | Spawned "jsstring list"
  | ChildExited "int option"
  | ErrorLogged error

datatype ending = ProcessExit "int option" | AllCompleted

function runAll :: "world \<Rightarrow> jsstring list \<Rightarrow> nat \<Rightarrow> event list \<times> ending" where
  "runAll w availableDirs index =
     (if index \<ge> length availableDirs then ([], AllCompleted)
      else
        (let dirName = availableDirs ! index;
             dirPath = pathJoin w [cwd w, js ''src'', dirName]
         in case findMainFile_interactive (readDir w dirPath) of
           Inl e \<Rightarrow> ([Announced dirName, ErrorLogged e], ProcessExit (Some 1))
         | Inr fileName \<Rightarrow>
             (let scriptPath = pathJoin w [dirPath, fileName];
                  argv = getRunCommand_interactive fileName @ [scriptPath];
                  code = exitCode w argv
              in if code \<noteq> Some 0
                 then ([Announced dirName, Spawned argv, ChildExited code], ProcessExit code)
                 else (let (trace, ending) = runAll w availableDirs (index + 1)
                       in (Announced dirName # Spawned argv # ChildExited code # trace, ending)))))"
  by pat_completeness auto
termination
  by (relation "measure (\<lambda>(w, availableDirs, index). length availableDirs - index)") auto

definition runAllMode :: "world \<Rightarrow> dirent list \<Rightarrow> event list \<times> ending" where
  "runAllMode w srcDir = runAll w (entryDirs srcDir) 0"

section \<open>Specification vocabulary\<close>

subsection \<open>What a pattern matches\<close>

text \<open>
  The declarative reading of a pattern: \<open>sem r p w rs cs\<close> says that \<open>r\<close> matches
  exactly the text \<open>w\<close> when \<open>p\<close> is the code unit before it and \<open>rs\<close> the text behind
  it, making the captures \<open>cs\<close> (the latest first). \<open>beforeOf p w\<close> is the code unit
  before the position behind \<open>w\<close>.
\<close>

definition beforeOf :: "cu option \<Rightarrow> jsstring \<Rightarrow> cu option" where
  "beforeOf p w = (if w = [] then p else Some (last w))"

fun sem :: "regex \<Rightarrow> cu option \<Rightarrow> jsstring \<Rightarrow> jsstring \<Rightarrow> (nat \<times> jsstring) list \<Rightarrow> bool" where
  "sem (Lit u) p w rs cs \<longleftrightarrow> w = u \<and> cs = []"
| "sem (Cls k) p w rs cs \<longleftrightarrow> (\<exists>c. w = [c] \<and> inClass k c) \<and> cs = []"
| "sem (Star k) p w rs cs \<longleftrightarrow> (\<forall>c\<in>set w. inClass k c) \<and> cs = []"
| "sem (LazyStar k) p w rs cs \<longleftrightarrow> (\<forall>c\<in>set w. inClass k c) \<and> cs = []"
| "sem (Seq a b) p w rs cs \<longleftrightarrow>
     (\<exists>u v ca cb. w = u @ v \<and> cs = cb @ ca \<and> sem a p u (v @ rs) ca \<and> sem b (beforeOf p u) v rs cb)"
| "sem (Alt a b) p w rs cs \<longleftrightarrow> sem a p w rs cs \<or> sem b p w rs cs"
| "sem WordBoundary p w rs cs \<longleftrightarrow> w = [] \<and> cs = [] \<and> isWordAt p \<noteq> isWordAt (nextCu rs)"
| "sem (Group n r) p w rs cs \<longleftrightarrow> (\<exists>c'. cs = (n, w) # c' \<and> sem r p w rs c')"

subsection \<open>Accumulated output\<close>

text \<open>The text a child process wrote on each stream, over all its chunks.\<close>

definition stdoutText :: "chunk list \<Rightarrow> jsstring" where
  "stdoutText chunks = concat (map (\<lambda>c. case c of StdoutData d \<Rightarrow> d | StderrData d \<Rightarrow> []) chunks)"

definition stderrText :: "chunk list \<Rightarrow> jsstring" where
  "stderrText chunks = concat (map (\<lambda>c. case c of StdoutData d \<Rightarrow> [] | StderrData d \<Rightarrow> d) chunks)"

subsection \<open>Directories\<close>

text \<open>
  The regular files of a listing, and the errors that examining its names meets, both in
  listing order.
\<close>

fun regularFileNames :: "(jsstring \<times> stat) list \<Rightarrow> jsstring list" where
  "regularFileNames [] = []"
| "regularFileNames ((f, s) # es) =
     (if s = Stats RegularFile then f # regularFileNames es else regularFileNames es)"

fun statErrors :: "(jsstring \<times> stat) list \<Rightarrow> errno list" where
  "statErrors [] = []"
| "statErrors ((f, StatThrows e) # es) = e # statErrors es"
| "statErrors ((f, Stats k) # es) = statErrors es"

subsection \<open>Traces of the dispatcher\<close>

text \<open>
  \<open>entryCommand w d\<close> is the command that runs the entry \<open>d\<close>: the interpreter command of the
  entry's main file, followed by the path of that file in the entry's directory below
  \<open>src\<close>; there is none when the directory has no main file. \<open>runsClean w d\<close> says that the
  entry has a command and that its process exits with code zero.
  \<open>runList\<close> is \<open>runAll\<close> read as a recursion over the entries still to run.
  \<open>spawnedCommands\<close> lists the commands a trace starts and \<open>announcedDirs\<close> the entries it
  announces, in order. \<open>orderly w\<close> holds of a trace in which every announced entry is either
  refused with an error, which ends the trace, or spawned and then exited with the exit code
  of what was spawned, and anything happens behind an exit only when its code was zero.
\<close>

definition entryCommand :: "world \<Rightarrow> jsstring \<Rightarrow> jsstring list option" where
  "entryCommand w d =
     (case findMainFile_interactive (readDir w (pathJoin w [cwd w, js ''src'', d])) of
        Inl e \<Rightarrow> None
      | Inr f \<Rightarrow>
          Some (getRunCommand_interactive f @ [pathJoin w [pathJoin w [cwd w, js ''src'', d], f]]))"

definition runsClean :: "world \<Rightarrow> jsstring \<Rightarrow> bool" where
  "runsClean w d = (case entryCommand w d of None \<Rightarrow> False | Some argv \<Rightarrow> exitCode w argv = Some 0)"

fun runList :: "world \<Rightarrow> jsstring list \<Rightarrow> event list \<times> ending" where
  "runList w [] = ([], AllCompleted)"
| "runList w (d # ds) =
     (case findMainFile_interactive (readDir w (pathJoin w [cwd w, js ''src'', d])) of
        Inl e \<Rightarrow> ([Announced d, ErrorLogged e], ProcessExit (Some 1))
      | Inr f \<Rightarrow>
          (let argv = getRunCommand_interactive f @ [pathJoin w [pathJoin w [cwd w, js ''src'', d], f]]
           in if exitCode w argv \<noteq> Some 0
              then ([Announced d, Spawned argv, ChildExited (exitCode w argv)],
                    ProcessExit (exitCode w argv))
              else (Announced d # Spawned argv # ChildExited (exitCode w argv) # fst (runList w ds),
                    snd (runList w ds))))"

fun spawnedCommands :: "event list \<Rightarrow> jsstring list list" where
  "spawnedCommands [] = []"
| "spawnedCommands (Spawned argv # es) = argv # spawnedCommands es"
| "spawnedCommands (e # es) = spawnedCommands es"

fun announcedDirs :: "event list \<Rightarrow> jsstring list" where
  "announcedDirs [] = []"
| "announcedDirs (Announced d # es) = d # announcedDirs es"
| "announcedDirs (e # es) = announcedDirs es"

fun orderly :: "world \<Rightarrow> event list \<Rightarrow> bool" where
  "orderly w [] = True"
| "orderly w [Announced d, ErrorLogged e] = (entryCommand w d = None)"
| "orderly w (Announced d # Spawned argv # ChildExited code # es) =
     (entryCommand w d = Some argv \<and> code = exitCode w argv \<and> (es = [] \<or> code = Some 0) \<and>
      orderly w es)"
| "orderly w es = False"

text \<open>
  An example run: the working directory \<open>/repo\<close>, paths joined with \<open>/\<close>, every directory
  holding just a \<open>main.js\<close>, the entries \<open>a\<close>, \<open>b\<close> and \<open>c\<close> beside a file; the process that
  runs the script of \<open>b\<close> exits with the given code, the others with zero.
\<close>

fun joinWithSlash :: "jsstring list \<Rightarrow> jsstring" where
  "joinWithSlash [] = []"
| "joinWithSlash [p] = p"
| "joinWithSlash (p # ps) = p @ js ''/'' @ joinWithSlash ps"

definition exampleSrc :: "dirent list" where
  "exampleSrc = [(js ''c'', Directory), (js ''README'', RegularFile), (js ''b'', Directory), (js ''a'', Directory)]"

definition exampleWorld :: "int \<Rightarrow> world" where
  "exampleWorld c =
     \<lparr>cwd = js ''/repo'',
      pathJoin = joinWithSlash,
      readDir = (\<lambda>p. Listing [(js ''main.js'', Stats RegularFile)]),
      exitCode = (\<lambda>argv. if argv = [js ''node'', js ''/repo/src/b/main.js''] then Some c else Some 0)\<rparr>"

subsection \<open>Occurrences of a text\<close>

text \<open>
  The number of occurrences of \<open>w\<close> in a text: one for every position at which \<open>w\<close>
  starts.
\<close>

fun occurrences :: "jsstring \<Rightarrow> jsstring \<Rightarrow> nat" where
  "occurrences w [] = (if w = [] then 1 else 0)"
| "occurrences w (x # xs) = (if prefix w (x # xs) then 1 else 0) + occurrences w xs"

subsection \<open>Calls in a text\<close>

text \<open>
  \<open>callOf name text\<close>: somewhere in the text the name stands, not directly behind a word
  character, followed by any white space and then \<open>(\<close>. \<open>methodCallOf name text\<close>: somewhere
  in the text stand \<open>.\<close>, the name, any white space and \<open>(\<close>.
\<close>

definition callOf :: "jsstring \<Rightarrow> jsstring \<Rightarrow> bool" where
  "callOf name text \<longleftrightarrow>
     (\<exists>pre ws post. text = pre @ name @ ws @ js ''('' @ post \<and>
        (\<forall>c\<in>set ws. isWhiteSpace c) \<and> \<not> isWordAt (beforeOf None pre))"

definition methodCallOf :: "jsstring \<Rightarrow> jsstring \<Rightarrow> bool" where
  "methodCallOf name text \<longleftrightarrow>
     (\<exists>pre ws post. text = pre @ js ''.'' @ name @ ws @ js ''('' @ post \<and>
        (\<forall>c\<in>set ws. isWhiteSpace c))"

subsection \<open>Comments\<close>

text \<open>
  Removing the comments, in words. \<open>afterFirst l xs\<close> is the text behind the first place at
  which \<open>l\<close> stands in \<open>xs\<close>. A block comment starts at a text that begins with \<open>/*\<close> and
  holds \<open>*/\<close> behind it, and ends with the first such \<open>*/\<close>; a line comment starts at a text
  that begins with \<open>//\<close> and ends before the next line terminator or with the text.
  \<open>removeBlockComments\<close> and \<open>removeLineComments\<close> go through the text from the left, skip
  every comment they meet and copy every other code unit.
\<close>

fun afterFirst :: "jsstring \<Rightarrow> jsstring \<Rightarrow> jsstring option" where
  "afterFirst l [] = (if l = [] then Some [] else None)"
| "afterFirst l (x # xs) =
     (if prefix l (x # xs) then Some (drop (length l) (x # xs)) else afterFirst l xs)"

definition blockCommentAt :: "jsstring \<Rightarrow> jsstring option" where
  "blockCommentAt xs = (if prefix (js ''/*'') xs then afterFirst (js ''*/'') (drop 2 xs) else None)"

definition lineCommentAt :: "jsstring \<Rightarrow> jsstring option" where
  "lineCommentAt xs =
     (if prefix (js ''//'') xs then Some (dropWhile (\<lambda>c. \<not> isLineTerminator c) (drop 2 xs)) else None)"

function removeBlockComments :: "jsstring \<Rightarrow> jsstring" where
  "removeBlockComments [] = []"
| "removeBlockComments (x # xs) =
     (case blockCommentAt (x # xs) of
        Some behind \<Rightarrow> removeBlockComments behind
      | None \<Rightarrow> x # removeBlockComments xs)"
  by pat_completeness auto
termination
proof (relation "measure length")
  show "wf (measure length)" by simp
next
  fix x :: cu and xs behind :: jsstring
  assume a: "blockCommentAt (x # xs) = Some behind"
  have "length r \<le> length ys" if "afterFirst l ys = Some r" for l ys r
    using that by (induction ys) (auto split: if_splits)
  then have "length r \<le> length (drop 2 (x # xs))"
    if "afterFirst (js ''*/'') (drop 2 (x # xs)) = Some r" for r
    using that by blast
  moreover from a have "afterFirst (js ''*/'') (drop 2 (x # xs)) = Some behind"
    by (simp add: blockCommentAt_def split: if_splits)
  ultimately have "length behind \<le> length (drop 2 (x # xs))" by blast
  also have "\<dots> < length (x # xs)" by simp
  finally show "(behind, x # xs) \<in> measure length" by simp
next
  fix x :: cu and xs :: jsstring
  show "(xs, x # xs) \<in> measure length" by simp
qed

function removeLineComments :: "jsstring \<Rightarrow> jsstring" where
  "removeLineComments [] = []"
| "removeLineComments (x # xs) =
     (case lineCommentAt (x # xs) of
        Some behind \<Rightarrow> removeLineComments behind
      | None \<Rightarrow> x # removeLineComments xs)"
  by pat_completeness auto
termination
proof (relation "measure length")
  show "wf (measure length)" by simp
next
  fix x :: cu and xs behind :: jsstring
  assume a: "lineCommentAt (x # xs) = Some behind"
  then have "behind = dropWhile (\<lambda>c. \<not> isLineTerminator c) (drop 2 (x # xs))"
    by (simp add: lineCommentAt_def split: if_splits)
  then have "length behind \<le> length (drop 2 (x # xs))"
    by (simp only: length_dropWhile_le)
  also have "\<dots> < length (x # xs)" by simp
  finally show "(behind, x # xs) \<in> measure length" by simp
next
  fix x :: cu and xs :: jsstring
  show "(xs, x # xs) \<in> measure length" by simp
qed

text \<open>
  A file written as pieces: code, block comments and line comments. \<open>fileOf\<close> is the text of
  the file and \<open>codeOf\<close> the code pieces joined. \<open>commented\<close> holds when the pieces are what
  they are called: a code piece holds no \<open>/*\<close> and no \<open>//\<close> and does not end in \<open>/\<close>; the
  text of a block comment holds no \<open>*/\<close>; the text of a line comment holds no line
  terminator and no \<open>/*\<close>, does not start with \<open>*\<close>, and the file ends behind it or goes on
  with a code piece that starts with a line terminator.
\<close>

datatype segment = Code jsstring | Block jsstring | Line jsstring

fun render :: "segment \<Rightarrow> jsstring" where
  "render (Code c) = c"
| "render (Block b) = js ''/*'' @ b @ js ''*/''"
| "render (Line l) = js ''//'' @ l"

definition fileOf :: "segment list \<Rightarrow> jsstring" where
  "fileOf segs = concat (map render segs)"

fun codeOf :: "segment list \<Rightarrow> jsstring" where
  "codeOf [] = []"
| "codeOf (Code c # segs) = c @ codeOf segs"
| "codeOf (s # segs) = codeOf segs"

fun withoutBlocks :: "segment list \<Rightarrow> segment list" where
  "withoutBlocks [] = []"
| "withoutBlocks (Block b # segs) = withoutBlocks segs"
| "withoutBlocks (s # segs) = s # withoutBlocks segs"

fun startsNewLine :: "segment list \<Rightarrow> bool" where
  "startsNewLine [] = True"
| "startsNewLine (Code c # segs) = (c \<noteq> [] \<and> isLineTerminator (hd c))"
| "startsNewLine (s # segs) = False"

fun commented :: "segment list \<Rightarrow> bool" where
  "commented [] = True"
| "commented (Code c # segs) =
     (\<not> sublist (js ''/*'') c \<and> \<not> sublist (js ''//'') c \<and> (c = [] \<or> last c \<noteq> 47) \<and>
      commented segs)"
| "commented (Block b # segs) = (\<not> sublist (js ''*/'') b \<and> commented segs)"
| "commented (Line l # segs) =
     (list_all (\<lambda>x. \<not> isLineTerminator x) l \<and> \<not> sublist (js ''/*'') l \<and> (l = [] \<or> hd l \<noteq> 42) \<and>
      startsNewLine segs \<and> commented segs)"

subsection \<open>Definitions in a text\<close>

text \<open>
  \<open>functionDeclaration name body text\<close>: the text is \<open>function\<close>, white space, the name (word
  characters), a parameter list without \<open>)\<close> in parentheses, and in braces a body without
  \<open>}\<close>. \<open>arrowAssignment name body text\<close>: the text is \<open>const\<close>, \<open>let\<close> or \<open>var\<close>, white space,
  the name, \<open>=\<close>, a parameter list without \<open>)\<close> in parentheses, \<open>=>\<close> and a body, not empty,
  without \<open>;\<close>. White space may stand between the parts.
\<close>

definition functionDeclaration :: "jsstring \<Rightarrow> jsstring \<Rightarrow> jsstring \<Rightarrow> bool" where
  "functionDeclaration name body text \<longleftrightarrow>
     (\<exists>ws1 ws2 params ws3.
        text = js ''function'' @ ws1 @ name @ ws2 @ js ''('' @ params @ js '')'' @ ws3 @
               js ''{'' @ body @ js ''}'' \<and>
        ws1 \<noteq> [] \<and> (\<forall>c\<in>set ws1. isWhiteSpace c) \<and>
        name \<noteq> [] \<and> (\<forall>c\<in>set name. isWordChar c) \<and>
        (\<forall>c\<in>set ws2. isWhiteSpace c) \<and> 0x29 \<notin> set params \<and>
        (\<forall>c\<in>set ws3. isWhiteSpace c) \<and> 0x7D \<notin> set body)"

definition arrowAssignment :: "jsstring \<Rightarrow> jsstring \<Rightarrow> jsstring \<Rightarrow> bool" where
  "arrowAssignment name body text \<longleftrightarrow>
     (\<exists>kw ws1 ws2 ws3 params ws4 ws5.
        text = kw @ ws1 @ name @ ws2 @ js ''='' @ ws3 @ js ''('' @ params @ js '')'' @ ws4 @
               js ''=>'' @ ws5 @ body \<and>
        (kw = js ''const'' \<or> kw = js ''let'' \<or> kw = js ''var'') \<and>
        ws1 \<noteq> [] \<and> (\<forall>c\<in>set ws1. isWhiteSpace c) \<and>
        name \<noteq> [] \<and> (\<forall>c\<in>set name. isWordChar c) \<and>
        (\<forall>c\<in>set ws2. isWhiteSpace c) \<and> (\<forall>c\<in>set ws3. isWhiteSpace c) \<and>
        0x29 \<notin> set params \<and> (\<forall>c\<in>set ws4. isWhiteSpace c) \<and>
        (\<forall>c\<in>set ws5. isWhiteSpace c) \<and> body \<noteq> [] \<and> 0x3B \<notin> set body)"

subsection \<open>Reading definitions from a text\<close>

text \<open>
  Reading a definition at the start of a text, in words. \<open>afterLiteral l xs\<close> is the text
  behind \<open>l\<close> when \<open>xs\<close> starts with \<open>l\<close>. \<open>nameAfter\<close> reads white space (some), a name (the
  word characters that follow) and white space, and gives the name and the text behind.
  \<open>parametersAt\<close> reads \<open>(\<close>, everything up to the first \<open>)\<close>, that \<open>)\<close> and white space.
  \<open>functionAt\<close> reads a function declaration: \<open>function\<close>, the name, the parameters, \<open>{\<close>,
  the body up to the first \<open>}\<close>, and that \<open>}\<close>. \<open>arrowAt\<close> reads an arrow function bound to a
  name: \<open>const\<close>, \<open>let\<close> or \<open>var\<close>, the name, \<open>=\<close>, white space, the parameters in
  parentheses, \<open>=>\<close> and the body; the body starts behind the white space that follows
  \<open>=>\<close> and runs up to the first \<open>;\<close> or the end of the text, and when nothing but white
  space stands there, the body is the last code unit of that white space. Both give the
  name and body read and the text behind the definition.
\<close>

definition afterLiteral :: "jsstring \<Rightarrow> jsstring \<Rightarrow> jsstring option" where
  "afterLiteral l xs = (if prefix l xs then Some (drop (length l) xs) else None)"

definition nameAfter :: "jsstring \<Rightarrow> (jsstring \<times> jsstring) option" where
  "nameAfter xs =
     (let ys = dropWhile isWhiteSpace xs; name = takeWhile isWordChar ys
      in if takeWhile isWhiteSpace xs = [] \<or> name = [] then None
         else Some (name, dropWhile isWhiteSpace (dropWhile isWordChar ys)))"

definition parametersAt :: "jsstring \<Rightarrow> jsstring option" where
  "parametersAt xs = do {
     ys \<leftarrow> afterLiteral (js ''('') xs;
     zs \<leftarrow> afterLiteral (js '')'') (dropWhile (\<lambda>c. c \<noteq> 0x29) ys);
     Some (dropWhile isWhiteSpace zs) }"

definition functionAt :: "jsstring \<Rightarrow> ((jsstring \<times> jsstring) \<times> jsstring) option" where
  "functionAt xs = do {
     t1 \<leftarrow> afterLiteral (js ''function'') xs;
     (name, t2) \<leftarrow> nameAfter t1;
     t3 \<leftarrow> parametersAt t2;
     t4 \<leftarrow> afterLiteral (js ''{'') t3;
     t5 \<leftarrow> afterLiteral (js ''}'') (dropWhile (\<lambda>c. c \<noteq> 0x7D) t4);
     Some ((name, takeWhile (\<lambda>c. c \<noteq> 0x7D) t4), t5) }"

definition keywordAt :: "jsstring \<Rightarrow> jsstring option" where
  "keywordAt xs =
     (case afterLiteral (js ''const'') xs of
        Some t \<Rightarrow> Some t
      | None \<Rightarrow> (case afterLiteral (js ''let'') xs of
                   Some t \<Rightarrow> Some t
                 | None \<Rightarrow> afterLiteral (js ''var'') xs))"

definition arrowBodyAt :: "jsstring \<Rightarrow> (jsstring \<times> jsstring) option" where
  "arrowBodyAt xs =
     (let ws = takeWhile isWhiteSpace xs; ys = dropWhile isWhiteSpace xs;
          body = takeWhile (\<lambda>c. c \<noteq> 0x3B) ys
      in if body \<noteq> [] then Some (body, dropWhile (\<lambda>c. c \<noteq> 0x3B) ys)
         else if ws \<noteq> [] then Some ([last ws], ys)
         else None)"

definition arrowAt :: "jsstring \<Rightarrow> ((jsstring \<times> jsstring) \<times> jsstring) option" where
  "arrowAt xs = do {
     t1 \<leftarrow> keywordAt xs;
     (name, t2) \<leftarrow> nameAfter t1;
     t3 \<leftarrow> afterLiteral (js ''='') t2;
     t4 \<leftarrow> parametersAt (dropWhile isWhiteSpace t3);
     t5 \<leftarrow> afterLiteral (js ''=>'') t4;
     (body, t6) \<leftarrow> arrowBodyAt t5;
     Some ((name, body), t6) }"

text \<open>
  \<open>scanWith at\<close> goes through a text from the left: where \<open>at\<close> reads a definition, the
  definition is taken and the scan goes on behind it (always at least one code unit on),
  elsewhere the scan moves one code unit on. The definitions the recursion test extracts
  from a file, each with its name and body, in the order of extraction, are the function
  declarations and then the arrow functions.
\<close>

function scanWith :: "(jsstring \<Rightarrow> ('a \<times> jsstring) option) \<Rightarrow> jsstring \<Rightarrow> 'a list" where
  "scanWith at [] = []"
| "scanWith at (x # xs) =
     (case at (x # xs) of
        Some (d, behind) \<Rightarrow> d # scanWith at (if length behind \<le> length xs then behind else xs)
      | None \<Rightarrow> scanWith at xs)"
  by pat_completeness auto
termination
  by (relation "measure (\<lambda>(at, xs). length xs)") auto

definition scanFunctions :: "jsstring \<Rightarrow> (jsstring \<times> jsstring) list" where
  "scanFunctions c = scanWith functionAt c"

definition scanArrows :: "jsstring \<Rightarrow> (jsstring \<times> jsstring) list" where
  "scanArrows c = scanWith arrowAt c"

definition extracted :: "jsstring \<Rightarrow> (jsstring \<times> jsstring) list" where
  "extracted c = scanFunctions c @ scanArrows c"

text \<open>
  \<open>recordedBody c n\<close> is the body that the recursion test holds for the name \<open>n\<close>: that of
  the last extracted definition of that name. \<open>parenAfter lit text\<close>: somewhere in the text
  stand \<open>lit\<close>, any white space and \<open>(\<close>.
\<close>

definition recordedBody :: "jsstring \<Rightarrow> jsstring \<Rightarrow> jsstring option" where
  "recordedBody c n = map_of (rev (extracted c)) n"

definition parenAfter :: "jsstring \<Rightarrow> jsstring \<Rightarrow> bool" where
  "parenAfter lit text \<longleftrightarrow>
     (\<exists>pre ws post. text = pre @ lit @ ws @ js ''('' @ post \<and> (\<forall>c\<in>set ws. isWhiteSpace c))"

section \<open>The matcher against the declarative reading\<close>

text \<open>
  The equations of the three functions defined by general recursion unfold for ever; they
  are applied by hand.
\<close>

declare runAll.simps [simp del] replaceFrom.simps [simp del] matchesFrom.simps [simp del]
  scanWith.simps [simp del]

lemma beforeOf_Nil [simp]: "beforeOf p [] = p"
  by (simp add: beforeOf_def)

lemma beforeOf_Cons: "beforeOf p (x # w) = beforeOf (Some x) w"
  by (simp add: beforeOf_def)

lemma beforeOf_append: "beforeOf p (u @ v) = beforeOf (beforeOf p u) v"
  by (simp add: beforeOf_def)

lemma starGreedy_iff:
  "(q, rs) \<in> set (starGreedy k p xs) \<longleftrightarrow>
     (\<exists>w. xs = w @ rs \<and> (\<forall>c\<in>set w. inClass k c) \<and> q = beforeOf p w)"
proof (induction xs arbitrary: p)
  case Nil
  then show ?case by auto
next
  case (Cons x xs)
  show ?case
  proof
    assume "(q, rs) \<in> set (starGreedy k p (x # xs))"
    then consider "inClass k x" "(q, rs) \<in> set (starGreedy k (Some x) xs)" | "q = p" "rs = x # xs"
      by (auto split: if_splits)
    then show "\<exists>w. x # xs = w @ rs \<and> (\<forall>c\<in>set w. inClass k c) \<and> q = beforeOf p w"
    proof cases
      case 1
      then obtain w where "xs = w @ rs" "\<forall>c\<in>set w. inClass k c" "q = beforeOf (Some x) w"
        using Cons.IH by blast
      with 1 have "x # xs = (x # w) @ rs \<and> (\<forall>c\<in>set (x # w). inClass k c) \<and> q = beforeOf p (x # w)"
        by (simp add: beforeOf_Cons)
      then show ?thesis by blast
    next
      case 2
      then have "x # xs = [] @ rs \<and> (\<forall>c\<in>set []. inClass k c) \<and> q = beforeOf p []" by simp
      then show ?thesis by blast
    qed
  next
    assume "\<exists>w. x # xs = w @ rs \<and> (\<forall>c\<in>set w. inClass k c) \<and> q = beforeOf p w"
    then obtain w where w: "x # xs = w @ rs" "\<forall>c\<in>set w. inClass k c" "q = beforeOf p w" by blast
    show "(q, rs) \<in> set (starGreedy k p (x # xs))"
    proof (cases w)
      case Nil
      with w show ?thesis by auto
    next
      case (Cons y w')
      with w have "y = x" "xs = w' @ rs" "inClass k x" "\<forall>c\<in>set w'. inClass k c" "q = beforeOf (Some x) w'"
        by (auto simp: beforeOf_Cons)
      then have "(q, rs) \<in> set (starGreedy k (Some x) xs)" using Cons.IH by blast
      with \<open>inClass k x\<close> show ?thesis by simp
    qed
  qed
qed

lemma starLazy_set: "set (starLazy k p xs) = set (starGreedy k p xs)"
  by (induction xs arbitrary: p) auto

lemma mstate_eq_iff: "S = MState p xs cs \<longleftrightarrow> before S = p \<and> rest S = xs \<and> caps S = cs"
  by (cases S) auto



lemma r_lit: "S \<in> set (rmatch (Lit u) (MState p xs c0)) \<longleftrightarrow>
     (\<exists>w cs. xs = w @ rest S \<and> before S = beforeOf p w \<and> caps S = cs @ c0 \<and> sem (Lit u) p w (rest S) cs)"
proof -
  have "S \<in> set (rmatch (Lit u) (MState p xs c0)) \<longleftrightarrow>
      prefix u xs \<and> S = MState (beforeOf p u) (drop (length u) xs) c0"
    by (auto simp: beforeOf_def)
  also have "\<dots> \<longleftrightarrow> xs = u @ rest S \<and> before S = beforeOf p u \<and> caps S = c0"
    by (cases S) (auto simp: prefix_def)
  also have "\<dots> \<longleftrightarrow> (\<exists>w cs. xs = w @ rest S \<and> before S = beforeOf p w \<and> caps S = cs @ c0 \<and> sem (Lit u) p w (rest S) cs)"
    by simp
  finally show ?thesis .
qed


lemma beforeOf_single [simp]: "beforeOf p [c] = Some c"
  by (simp add: beforeOf_def)

lemma r_cls: "S \<in> set (rmatch (Cls k) (MState p xs c0)) \<longleftrightarrow>
     (\<exists>w cs. xs = w @ rest S \<and> before S = beforeOf p w \<and> caps S = cs @ c0 \<and> sem (Cls k) p w (rest S) cs)"
proof -
  have "S \<in> set (rmatch (Cls k) (MState p xs c0)) \<longleftrightarrow>
      (\<exists>c. inClass k c \<and> xs = c # rest S \<and> before S = Some c \<and> caps S = c0)"
  proof (cases xs)
    case Nil
    then show ?thesis by simp
  next
    case (Cons y ys)
    then show ?thesis by (cases S) auto
  qed
  also have "\<dots> \<longleftrightarrow> (\<exists>w cs. xs = w @ rest S \<and> before S = beforeOf p w \<and> caps S = cs @ c0 \<and> sem (Cls k) p w (rest S) cs)"
    by (rule iffI; clarsimp)
  finally show ?thesis .
qed


lemma r_star: "S \<in> set (rmatch (Star k) (MState p xs c0)) \<longleftrightarrow>
     (\<exists>w cs. xs = w @ rest S \<and> before S = beforeOf p w \<and> caps S = cs @ c0 \<and> sem (Star k) p w (rest S) cs)"
proof -
  have "S \<in> set (rmatch (Star k) (MState p xs c0)) \<longleftrightarrow>
      (before S, rest S) \<in> set (starGreedy k p xs) \<and> caps S = c0"
    by (cases S) (force simp: image_iff)
  also have "\<dots> \<longleftrightarrow> (\<exists>w cs. xs = w @ rest S \<and> before S = beforeOf p w \<and> caps S = cs @ c0 \<and> sem (Star k) p w (rest S) cs)"
    unfolding starGreedy_iff by auto
  finally show ?thesis .
qed


lemma r_lazy: "S \<in> set (rmatch (LazyStar k) (MState p xs c0)) \<longleftrightarrow>
     (\<exists>w cs. xs = w @ rest S \<and> before S = beforeOf p w \<and> caps S = cs @ c0 \<and> sem (LazyStar k) p w (rest S) cs)"
proof -
  have "set (rmatch (LazyStar k) (MState p xs c0)) = set (rmatch (Star k) (MState p xs c0))"
    by (simp add: starLazy_set)
  then show ?thesis using r_star [of S k p xs c0] by simp
qed

lemma r_wb: "S \<in> set (rmatch WordBoundary (MState p xs c0)) \<longleftrightarrow>
     (\<exists>w cs. xs = w @ rest S \<and> before S = beforeOf p w \<and> caps S = cs @ c0 \<and> sem WordBoundary p w (rest S) cs)"
  by (cases S) auto

lemma rmatch_sem:
  "S \<in> set (rmatch r (MState p xs c0)) \<longleftrightarrow>
     (\<exists>w cs. xs = w @ rest S \<and> before S = beforeOf p w \<and> caps S = cs @ c0 \<and> sem r p w (rest S) cs)"
proof (induction r arbitrary: S p xs c0)
  case (Lit u)
  show ?case by (rule r_lit)
next
  case (Cls k)
  show ?case by (rule r_cls)
next
  case (Star k)
  show ?case by (rule r_star)
next
  case (LazyStar k)
  show ?case by (rule r_lazy)
next
  case (Seq a b)
  have "S \<in> set (rmatch (Seq a b) (MState p xs c0)) \<longleftrightarrow>
        (\<exists>T. T \<in> set (rmatch a (MState p xs c0)) \<and> S \<in> set (rmatch b (MState (before T) (rest T) (caps T))))"
    by auto
  also have "\<dots> \<longleftrightarrow> (\<exists>T. (\<exists>u ca. xs = u @ rest T \<and> before T = beforeOf p u \<and> caps T = ca @ c0 \<and> sem a p u (rest T) ca) \<and>
        (\<exists>v cb. rest T = v @ rest S \<and> before S = beforeOf (before T) v \<and> caps S = cb @ caps T \<and> sem b (before T) v (rest S) cb))"
    by (simp only: Seq.IH)
  also have "\<dots> \<longleftrightarrow> (\<exists>w cs. xs = w @ rest S \<and> before S = beforeOf p w \<and> caps S = cs @ c0 \<and> sem (Seq a b) p w (rest S) cs)"
  proof
    assume "\<exists>T. (\<exists>u ca. xs = u @ rest T \<and> before T = beforeOf p u \<and> caps T = ca @ c0 \<and> sem a p u (rest T) ca) \<and>
        (\<exists>v cb. rest T = v @ rest S \<and> before S = beforeOf (before T) v \<and> caps S = cb @ caps T \<and> sem b (before T) v (rest S) cb)"
    then obtain T u ca v cb where
      "xs = u @ rest T" "before T = beforeOf p u" "caps T = ca @ c0" "sem a p u (rest T) ca"
      "rest T = v @ rest S" "before S = beforeOf (before T) v" "caps S = cb @ caps T" "sem b (before T) v (rest S) cb"
      by blast
    then have "xs = (u @ v) @ rest S \<and> before S = beforeOf p (u @ v) \<and> caps S = (cb @ ca) @ c0 \<and>
       sem (Seq a b) p (u @ v) (rest S) (cb @ ca)"
      by (auto simp: beforeOf_append)
    then show "\<exists>w cs. xs = w @ rest S \<and> before S = beforeOf p w \<and> caps S = cs @ c0 \<and> sem (Seq a b) p w (rest S) cs"
      by blast
  next
    assume "\<exists>w cs. xs = w @ rest S \<and> before S = beforeOf p w \<and> caps S = cs @ c0 \<and> sem (Seq a b) p w (rest S) cs"
    then obtain w cs where h0: "xs = w @ rest S" "before S = beforeOf p w" "caps S = cs @ c0"
       "sem (Seq a b) p w (rest S) cs" by blast
    from h0(4) obtain u v ca cb where h1: "w = u @ v" "cs = cb @ ca"
      "sem a p u (v @ rest S) ca" "sem b (beforeOf p u) v (rest S) cb"
      by auto
    let ?T = "MState (beforeOf p u) (v @ rest S) (ca @ c0)"
    from h0 h1 have "(\<exists>u ca. xs = u @ rest ?T \<and> before ?T = beforeOf p u \<and> caps ?T = ca @ c0 \<and> sem a p u (rest ?T) ca) \<and>
        (\<exists>v cb. rest ?T = v @ rest S \<and> before S = beforeOf (before ?T) v \<and> caps S = cb @ caps ?T \<and> sem b (before ?T) v (rest S) cb)"
      by (auto simp: beforeOf_append)
    then show "\<exists>T. (\<exists>u ca. xs = u @ rest T \<and> before T = beforeOf p u \<and> caps T = ca @ c0 \<and> sem a p u (rest T) ca) \<and>
        (\<exists>v cb. rest T = v @ rest S \<and> before S = beforeOf (before T) v \<and> caps S = cb @ caps T \<and> sem b (before T) v (rest S) cb)"
      by blast
  qed
  finally show ?case .
next
  case (Alt a b)
  have "S \<in> set (rmatch (Alt a b) (MState p xs c0)) \<longleftrightarrow>
     S \<in> set (rmatch a (MState p xs c0)) \<or> S \<in> set (rmatch b (MState p xs c0))"
    by simp
  then show ?case
    unfolding Alt.IH by auto
next
  case WordBoundary
  show ?case by (rule r_wb)
next
  case (Group n r)
  have "S \<in> set (rmatch (Group n r) (MState p xs c0)) \<longleftrightarrow>
     (\<exists>T. T \<in> set (rmatch r (MState p xs c0)) \<and>
        S = MState (before T) (rest T) ((n, take (length xs - length (rest T)) xs) # caps T))"
    by auto
  also have "\<dots> \<longleftrightarrow> (\<exists>T. (\<exists>w cs. xs = w @ rest T \<and> before T = beforeOf p w \<and> caps T = cs @ c0 \<and> sem r p w (rest T) cs) \<and>
        S = MState (before T) (rest T) ((n, take (length xs - length (rest T)) xs) # caps T))"
    by (simp only: Group.IH)
  also have "\<dots> \<longleftrightarrow> (\<exists>w cs. xs = w @ rest S \<and> before S = beforeOf p w \<and> caps S = cs @ c0 \<and> sem (Group n r) p w (rest S) cs)"
  proof
    assume "\<exists>T. (\<exists>w cs. xs = w @ rest T \<and> before T = beforeOf p w \<and> caps T = cs @ c0 \<and> sem r p w (rest T) cs) \<and>
        S = MState (before T) (rest T) ((n, take (length xs - length (rest T)) xs) # caps T)"
    then obtain T w cs where h: "xs = w @ rest T" "before T = beforeOf p w" "caps T = cs @ c0" "sem r p w (rest T) cs"
        "S = MState (before T) (rest T) ((n, take (length xs - length (rest T)) xs) # caps T)"
      by blast
    then have "xs = w @ rest S \<and> before S = beforeOf p w \<and> caps S = ((n, w) # cs) @ c0 \<and> sem (Group n r) p w (rest S) ((n, w) # cs)"
      by simp
    then show "\<exists>w cs. xs = w @ rest S \<and> before S = beforeOf p w \<and> caps S = cs @ c0 \<and> sem (Group n r) p w (rest S) cs"
      by blast
  next
    assume "\<exists>w cs. xs = w @ rest S \<and> before S = beforeOf p w \<and> caps S = cs @ c0 \<and> sem (Group n r) p w (rest S) cs"
    then obtain w cs where h0: "xs = w @ rest S" "before S = beforeOf p w" "caps S = cs @ c0"
      "sem (Group n r) p w (rest S) cs" by blast
    from h0(4) obtain c' where h1: "cs = (n, w) # c'" "sem r p w (rest S) c'" by auto
    let ?T = "MState (before S) (rest S) (c' @ c0)"
    from h0 h1 have "(\<exists>w cs. xs = w @ rest ?T \<and> before ?T = beforeOf p w \<and> caps ?T = cs @ c0 \<and> sem r p w (rest ?T) cs) \<and>
        S = MState (before ?T) (rest ?T) ((n, take (length xs - length (rest ?T)) xs) # caps ?T)"
      by (auto simp: mstate_eq_iff)
    then show "\<exists>T. (\<exists>w cs. xs = w @ rest T \<and> before T = beforeOf p w \<and> caps T = cs @ c0 \<and> sem r p w (rest T) cs) \<and>
        S = MState (before T) (rest T) ((n, take (length xs - length (rest T)) xs) # caps T)"
      by blast
  qed
  finally show ?case .
qed

lemma execAt_None: "execAt r p xs = None \<longleftrightarrow> rmatch r (MState p xs []) = []"
  by (simp add: execAt_def split: list.splits)

lemma execAt_Some: "execAt r p xs = Some m \<Longrightarrow> m \<in> set (rmatch r (MState p xs []))"
  by (auto simp: execAt_def split: list.splits)

lemma execAt_sem:
  "execAt r p xs \<noteq> None \<longleftrightarrow> (\<exists>w rs cs. xs = w @ rs \<and> sem r p w rs cs)"
proof -
  have "execAt r p xs \<noteq> None \<longleftrightarrow> (\<exists>S. S \<in> set (rmatch r (MState p xs [])))"
    by (cases "rmatch r (MState p xs [])") (auto simp: execAt_def)
  also have "\<dots> \<longleftrightarrow> (\<exists>S w cs. xs = w @ rest S \<and> before S = beforeOf p w \<and> caps S = cs \<and> sem r p w (rest S) cs)"
    by (simp add: rmatch_sem)
  also have "\<dots> \<longleftrightarrow> (\<exists>w rs cs. xs = w @ rs \<and> sem r p w rs cs)"
  proof
    assume "\<exists>S w cs. xs = w @ rest S \<and> before S = beforeOf p w \<and> caps S = cs \<and> sem r p w (rest S) cs"
    then show "\<exists>w rs cs. xs = w @ rs \<and> sem r p w rs cs" by blast
  next
    assume "\<exists>w rs cs. xs = w @ rs \<and> sem r p w rs cs"
    then obtain w rs cs where h: "xs = w @ rs" "sem r p w rs cs" by blast
    let ?S = "MState (beforeOf p w) rs cs"
    from h have "xs = w @ rest ?S \<and> before ?S = beforeOf p w \<and> caps ?S = cs \<and> sem r p w (rest ?S) cs"
      by simp
    then show "\<exists>S w cs. xs = w @ rest S \<and> before S = beforeOf p w \<and> caps S = cs \<and> sem r p w (rest S) cs"
      by blast
  qed
  finally show ?thesis .
qed

lemma searchFrom_iff:
  "searchFrom r p xs \<longleftrightarrow> (\<exists>pre suf. xs = pre @ suf \<and> execAt r (beforeOf p pre) suf \<noteq> None)"
proof (induction xs arbitrary: p)
  case Nil
  show ?case by simp
next
  case (Cons x xs)
  have "(\<exists>pre suf. x # xs = pre @ suf \<and> execAt r (beforeOf p pre) suf \<noteq> None) \<longleftrightarrow>
        execAt r p (x # xs) \<noteq> None \<or> (\<exists>pre suf. xs = pre @ suf \<and> execAt r (beforeOf (Some x) pre) suf \<noteq> None)"
  proof
    assume "\<exists>pre suf. x # xs = pre @ suf \<and> execAt r (beforeOf p pre) suf \<noteq> None"
    then obtain pre suf where h: "x # xs = pre @ suf" "execAt r (beforeOf p pre) suf \<noteq> None" by blast
    show "execAt r p (x # xs) \<noteq> None \<or> (\<exists>pre suf. xs = pre @ suf \<and> execAt r (beforeOf (Some x) pre) suf \<noteq> None)"
    proof (cases pre)
      case Nil
      with h show ?thesis by simp
    next
      case (Cons y pre')
      with h have "xs = pre' @ suf \<and> execAt r (beforeOf (Some x) pre') suf \<noteq> None"
        by (simp add: beforeOf_Cons)
      then show ?thesis by blast
    qed
  next
    assume "execAt r p (x # xs) \<noteq> None \<or> (\<exists>pre suf. xs = pre @ suf \<and> execAt r (beforeOf (Some x) pre) suf \<noteq> None)"
    then show "\<exists>pre suf. x # xs = pre @ suf \<and> execAt r (beforeOf p pre) suf \<noteq> None"
    proof
      assume "execAt r p (x # xs) \<noteq> None"
      then have "x # xs = [] @ (x # xs) \<and> execAt r (beforeOf p []) (x # xs) \<noteq> None" by simp
      then show ?thesis by blast
    next
      assume "\<exists>pre suf. xs = pre @ suf \<and> execAt r (beforeOf (Some x) pre) suf \<noteq> None"
      then obtain pre suf where "xs = pre @ suf" "execAt r (beforeOf (Some x) pre) suf \<noteq> None" by blast
      then have "x # xs = (x # pre) @ suf \<and> execAt r (beforeOf p (x # pre)) suf \<noteq> None"
        by (simp add: beforeOf_Cons)
      then show ?thesis by blast
    qed
  qed
  with Cons show ?case by simp
qed

lemma regexTest_sem:
  "regexTest r text \<longleftrightarrow>
     (\<exists>pre w post cs. text = pre @ w @ post \<and> sem r (beforeOf None pre) w post cs)"
  unfolding regexTest_def searchFrom_iff execAt_sem by blast

lemma sem_callPattern:
  "sem (callPattern name) p w post cs \<longleftrightarrow>
     (\<exists>ws. w = name @ ws @ js ''('' \<and> (\<forall>c\<in>set ws. isWhiteSpace c)) \<and> cs = [] \<and>
     isWordAt p \<noteq> isWordAt (nextCu (w @ post))"
  by (auto simp: callPattern_def)

lemma sem_forEach:
  "sem forEachRegex p w post cs \<longleftrightarrow>
     (\<exists>ws. w = js ''.forEach'' @ ws @ js ''('' \<and> (\<forall>c\<in>set ws. isWhiteSpace c)) \<and> cs = []"
  by (auto simp: forEachRegex_def)

lemma regexTest_callPattern:
  assumes "name \<noteq> []" "isWordChar (hd name)"
  shows "regexTest (callPattern name) text \<longleftrightarrow> callOf name text"
proof -
  have nx: "nextCu ((name @ ws @ js ''('') @ post) = Some (hd name)" for ws post
    using assms(1) by (cases name) (simp_all add: nextCu_def)
  have "regexTest (callPattern name) text \<longleftrightarrow>
     (\<exists>pre w post. text = pre @ w @ post \<and>
        (\<exists>ws. w = name @ ws @ js ''('' \<and> (\<forall>c\<in>set ws. isWhiteSpace c)) \<and>
        isWordAt (beforeOf None pre) \<noteq> isWordAt (nextCu (w @ post)))"
    by (simp add: regexTest_sem sem_callPattern)
  also have "\<dots> \<longleftrightarrow> (\<exists>pre ws post. text = pre @ (name @ ws @ js ''('') @ post \<and>
        (\<forall>c\<in>set ws. isWhiteSpace c) \<and>
        isWordAt (beforeOf None pre) \<noteq> isWordAt (nextCu ((name @ ws @ js ''('') @ post)))"
    by blast
  also have "\<dots> \<longleftrightarrow> callOf name text"
    unfolding nx callOf_def using assms(2) by (simp add: isWordAt_def)
  finally show ?thesis .
qed

lemma regexTest_for: "regexTest forRegex text \<longleftrightarrow> callOf (js ''for'') text"
proof -
  have e: "forRegex = callPattern (js ''for'')"
    by (simp add: forRegex_def callPattern_def)
  have n: "js ''for'' \<noteq> []" "isWordChar (hd (js ''for''))"
    by (simp_all add: js_def isWordChar_def)
  show ?thesis unfolding e by (rule regexTest_callPattern [OF n])
qed

lemma regexTest_while: "regexTest whileRegex text \<longleftrightarrow> callOf (js ''while'') text"
proof -
  have e: "whileRegex = callPattern (js ''while'')"
    by (simp add: whileRegex_def callPattern_def)
  have n: "js ''while'' \<noteq> []" "isWordChar (hd (js ''while''))"
    by (simp_all add: js_def isWordChar_def)
  show ?thesis unfolding e by (rule regexTest_callPattern [OF n])
qed

lemma regexTest_forEach: "regexTest forEachRegex text \<longleftrightarrow> methodCallOf (js ''forEach'') text"
proof -
  have "regexTest forEachRegex text \<longleftrightarrow>
     (\<exists>pre w post. text = pre @ w @ post \<and>
        (\<exists>ws. w = js ''.forEach'' @ ws @ js ''('' \<and> (\<forall>c\<in>set ws. isWhiteSpace c)))"
    by (simp add: regexTest_sem sem_forEach)
  also have "\<dots> \<longleftrightarrow> (\<exists>pre ws post. text = pre @ (js ''.forEach'' @ ws @ js ''('') @ post \<and>
        (\<forall>c\<in>set ws. isWhiteSpace c))"
    by blast
  also have "\<dots> \<longleftrightarrow> methodCallOf (js ''forEach'') text"
    by (simp add: methodCallOf_def js_def)
  finally show ?thesis .
qed

lemma keywordTest_calls:
  "keywordTest c =
     (if callOf (js ''for'') (codeWithoutComments c) then Inl (BannedConstruct BannedFor)
      else if callOf (js ''while'') (codeWithoutComments c) then Inl (BannedConstruct BannedWhile)
      else if methodCallOf (js ''forEach'') (codeWithoutComments c) then Inl (BannedConstruct BannedForEach)
      else Inr ())"
  by (simp add: keywordTest_def regexTest_for regexTest_while regexTest_forEach)

lemma sem_block:
  "sem blockCommentRegex p w rs cs \<longleftrightarrow> (\<exists>u. w = js ''/*'' @ u @ js ''*/'') \<and> cs = []"
  by (auto simp: blockCommentRegex_def)

lemma sem_line:
  "sem lineCommentRegex p w rs cs \<longleftrightarrow>
     (\<exists>u. w = js ''//'' @ u \<and> (\<forall>c\<in>set u. \<not> isLineTerminator c)) \<and> cs = []"
  by (auto simp: lineCommentRegex_def)

lemma replaceFrom_None_Cons:
  "execAt r p (y # ys) = None \<Longrightarrow> replaceFrom r new p (y # ys) = y # replaceFrom r new (Some y) ys"
  by (subst replaceFrom.simps) simp

lemma replaceFrom_None_Nil:
  "execAt r p [] = None \<Longrightarrow> replaceFrom r new p [] = []"
  by (subst replaceFrom.simps) simp

lemma replaceFrom_Some:
  "execAt r p xs = Some m \<Longrightarrow> length (rest m) < length xs \<Longrightarrow>
   replaceFrom r new p xs = new @ replaceFrom r new (before m) (rest m)"
  by (subst replaceFrom.simps) simp

lemma replaceFrom_no_match:
  "(\<And>pre suf. xs = pre @ suf \<Longrightarrow> execAt r (beforeOf p pre) suf = None) \<Longrightarrow>
   replaceFrom r new p xs = xs"
proof (induction xs arbitrary: p)
  case Nil
  then have "execAt r p [] = None" using Nil [of "[]" "[]"] by simp
  then show ?case by (rule replaceFrom_None_Nil)
next
  case (Cons x xs)
  have "execAt r p (x # xs) = None" using Cons.prems [of "[]" "x # xs"] by simp
  moreover have "replaceFrom r new (Some x) xs = xs"
  proof (rule Cons.IH)
    fix pre suf assume "xs = pre @ suf"
    then show "execAt r (beforeOf (Some x) pre) suf = None"
      using Cons.prems [of "x # pre" suf] by (simp add: beforeOf_Cons)
  qed
  ultimately show ?case by (simp add: replaceFrom_None_Cons)
qed

lemma execAt_rest:
  "execAt r p xs = Some m \<Longrightarrow> \<exists>w cs. xs = w @ rest m \<and> before m = beforeOf p w \<and> caps m = cs \<and> sem r p w (rest m) cs"
  using execAt_Some [of r p xs m] by (simp add: rmatch_sem)

lemma replaceFrom_subset: "set (replaceFrom r [] p xs) \<subseteq> set xs"
proof (induction "length xs" arbitrary: p xs rule: less_induct)
  case less
  show ?case
  proof (cases "execAt r p xs")
    case None
    show ?thesis
    proof (cases xs)
      case Nil
      with None show ?thesis by (simp add: replaceFrom_None_Nil)
    next
      case (Cons y ys)
      with None less [of ys "Some y"] show ?thesis
        by (auto simp: replaceFrom_None_Cons)
    qed
  next
    case (Some m)
    from execAt_rest [OF Some] have sub: "set (rest m) \<subseteq> set xs" by auto
    show ?thesis
    proof (cases "length (rest m) < length xs")
      case True
      with Some less [of "rest m" "before m"] sub show ?thesis
        by (auto simp: replaceFrom_Some)
    next
      case False
      show ?thesis
      proof (cases xs)
        case Nil
        with Some False show ?thesis by (subst replaceFrom.simps) simp
      next
        case (Cons y ys)
        with Some False less [of ys "Some y"] show ?thesis
          by (subst replaceFrom.simps) auto
      qed
    qed
  qed
qed

lemma starGreedy_hd:
  "starGreedy k p xs \<noteq> [] \<and>
   hd (starGreedy k p xs) = (beforeOf p (takeWhile (inClass k) xs), dropWhile (inClass k) xs)"
proof (induction xs arbitrary: p)
  case Nil
  show ?case by simp
next
  case (Cons x xs)
  show ?case
    using Cons [of "Some x"] by (simp add: beforeOf_Cons)
qed

lemma slash_units: "js ''/*'' = [47, 42]" "js ''*/'' = [42, 47]" "js ''//'' = [47, 47]"
  by (simp_all add: js_def)

lemma execAt_block_head: "execAt blockCommentRegex p xs \<noteq> None \<Longrightarrow> prefix (js ''/*'') xs"
  unfolding execAt_sem sem_block by (auto simp: prefix_def)

lemma execAt_line_head: "execAt lineCommentRegex p xs \<noteq> None \<Longrightarrow> prefix (js ''//'') xs"
  unfolding execAt_sem sem_line by (auto simp: prefix_def)

lemma no_slash_no_block:
  assumes "47 \<notin> set xs"
  shows "replaceFrom blockCommentRegex new p xs = xs"
proof (rule replaceFrom_no_match)
  fix pre suf assume "xs = pre @ suf"
  with assms have "\<not> prefix (js ''/*'') suf"
    by (auto simp: slash_units prefix_def)
  then show "execAt blockCommentRegex (beforeOf p pre) suf = None"
    using execAt_block_head by blast
qed

lemma no_slash_no_line:
  assumes "47 \<notin> set xs"
  shows "replaceFrom lineCommentRegex new p xs = xs"
proof (rule replaceFrom_no_match)
  fix pre suf assume "xs = pre @ suf"
  with assms have "\<not> prefix (js ''//'') suf"
    by (auto simp: slash_units prefix_def)
  then show "execAt lineCommentRegex (beforeOf p pre) suf = None"
    using execAt_line_head by blast
qed

lemma codeWithoutComments_no_slash: "47 \<notin> set c \<Longrightarrow> codeWithoutComments c = c"
  by (simp add: codeWithoutComments_def replaceAllG_def no_slash_no_block no_slash_no_line)

lemma execAt_line:
  "execAt lineCommentRegex p (js ''//'' @ t) =
     Some (MState (beforeOf (Some 47) (takeWhile (inClass Dot) t)) (dropWhile (inClass Dot) t) [])"
proof -
  have "rmatch lineCommentRegex (MState p (js ''//'' @ t) [])
      = map (\<lambda>(q, xs). MState q xs []) (starGreedy Dot (Some 47) t)"
    by (simp add: lineCommentRegex_def slash_units)
  moreover obtain a as where "starGreedy Dot (Some 47) t = a # as"
      "a = (beforeOf (Some 47) (takeWhile (inClass Dot) t), dropWhile (inClass Dot) t)"
    using starGreedy_hd [of Dot "Some 47" t] by (cases "starGreedy Dot (Some 47) t") auto
  ultimately show ?thesis by (simp add: execAt_def)
qed

lemma line_comment_removed:
  assumes "\<forall>c\<in>set t. \<not> isLineTerminator c"
  shows "replaceFrom lineCommentRegex [] p (js ''//'' @ t) = []"
proof -
  have tw: "dropWhile (inClass Dot) t = []" using assms by simp
  have e: "execAt lineCommentRegex p (js ''//'' @ t) =
     Some (MState (beforeOf (Some 47) (takeWhile (inClass Dot) t)) [] [])"
    using execAt_line [of p t] tw by simp
  have "\<not> prefix (js ''//'') []" by (simp add: slash_units)
  then have n: "execAt lineCommentRegex q [] = None" for q
    using execAt_line_head by blast
  have "replaceFrom lineCommentRegex [] p (js ''//'' @ t)
      = [] @ replaceFrom lineCommentRegex [] (beforeOf (Some 47) (takeWhile (inClass Dot) t)) []"
    using replaceFrom_Some [OF e, of "[]"] by (simp add: slash_units)
  then show ?thesis by (simp add: replaceFrom_None_Nil n)
qed

lemma line_comment_kept_by_block:
  assumes "t = [] \<or> hd t \<noteq> 42"
  shows "replaceFrom blockCommentRegex [] p (js ''//'' @ t)
       = js ''//'' @ replaceFrom blockCommentRegex [] (Some 47) t"
proof -
  have "\<not> prefix (js ''/*'') (47 # 47 # t)" by (simp add: slash_units)
  then have n1: "execAt blockCommentRegex p (47 # 47 # t) = None"
    using execAt_block_head by blast
  have "\<not> prefix (js ''/*'') (47 # t)" using assms by (cases t) (auto simp: slash_units)
  then have n2: "execAt blockCommentRegex (Some 47) (47 # t) = None"
    using execAt_block_head by blast
  show ?thesis
    by (simp add: slash_units replaceFrom_None_Cons n1 n2)
qed

lemma codeWithoutComments_line:
  assumes "\<forall>c\<in>set t. \<not> isLineTerminator c" "t = [] \<or> hd t \<noteq> 42"
  shows "codeWithoutComments (js ''//'' @ t) = []"
proof -
  let ?t' = "replaceFrom blockCommentRegex [] (Some 47) t"
  have "set ?t' \<subseteq> set t" by (rule replaceFrom_subset)
  with assms(1) have "\<forall>c\<in>set ?t'. \<not> isLineTerminator c" by blast
  then have "replaceFrom lineCommentRegex [] None (js ''//'' @ ?t') = []"
    by (rule line_comment_removed)
  then show ?thesis
    by (simp add: codeWithoutComments_def replaceAllG_def line_comment_kept_by_block [OF assms(2)])
qed

lemma block_end_unique:
  assumes "\<not> sublist (js ''*/'') t" "t @ js ''*/'' = u @ js ''*/'' @ rs"
  shows "rs = []"
proof (rule ccontr)
  assume ne: "rs \<noteq> []"
  from assms(2) have "t @ js ''*/'' = (u @ js ''*/'') @ rs" by simp
  then obtain us where "(t = (u @ js ''*/'') @ us \<and> us @ js ''*/'' = rs) \<or>
      (t @ us = u @ js ''*/'' \<and> js ''*/'' = us @ rs)"
    unfolding append_eq_append_conv2 by blast
  then show False
  proof
    assume "t = (u @ js ''*/'') @ us \<and> us @ js ''*/'' = rs"
    then have "sublist (js ''*/'') t" by (auto simp: sublist_def)
    with assms(1) show False by simp
  next
    assume h: "t @ us = u @ js ''*/'' \<and> js ''*/'' = us @ rs"
    then have "us = [] \<or> us = [42]"
      using ne by (cases us) (auto simp: slash_units Cons_eq_append_conv)
    then show False
    proof
      assume "us = []"
      with h have "sublist (js ''*/'') t" by (auto simp: sublist_def intro: exI [of _ u])
      with assms(1) show False by simp
    next
      assume "us = [42]"
      with h have "t @ [42] = (u @ [42]) @ [47]" by (simp add: slash_units)
      then show False by (simp only: append1_eq_conv) simp
    qed
  qed
qed

lemma codeWithoutComments_block:
  assumes "\<not> sublist (js ''*/'') t"
  shows "codeWithoutComments (js ''/*'' @ t @ js ''*/'') = []"
proof -
  let ?c = "js ''/*'' @ t @ js ''*/''"
  have "sem blockCommentRegex None ?c [] []"
    by (auto simp: sem_block)
  then have "execAt blockCommentRegex None ?c \<noteq> None"
    unfolding execAt_sem by (metis append_Nil2)
  then obtain m where m: "execAt blockCommentRegex None ?c = Some m" by blast
  from execAt_rest [OF m] obtain u where "?c = (js ''/*'' @ u @ js ''*/'') @ rest m"
    by (auto simp: sem_block)
  then have "t @ js ''*/'' = u @ js ''*/'' @ rest m" by simp
  with assms have r: "rest m = []" by (rule block_end_unique)
  have "\<not> prefix (js ''/*'') []" by (simp add: slash_units)
  then have n: "execAt blockCommentRegex q [] = None" for q
    using execAt_block_head by blast
  have "replaceFrom blockCommentRegex [] None ?c = [] @ replaceFrom blockCommentRegex [] (before m) (rest m)"
    using replaceFrom_Some [OF m, of "[]"] r by (simp add: slash_units)
  then have "replaceFrom blockCommentRegex [] None ?c = []"
    using r by (simp add: replaceFrom_None_Nil n)
  moreover have "replaceFrom lineCommentRegex [] None [] = []"
    by (rule no_slash_no_line) simp
  ultimately show ?thesis
    by (simp add: codeWithoutComments_def replaceAllG_def)
qed

declare removeBlockComments.simps [simp del] removeLineComments.simps [simp del]

lemma lazy_then_literal:
  assumes "l \<noteq> []"
  shows "concat (map (rmatch (Lit l)) (map (\<lambda>(p, xs). MState p xs cs) (starLazy AnyCu q ys)))
         = (case afterFirst l ys of None \<Rightarrow> [] | Some r \<Rightarrow> [MState (Some (last l)) r cs])
           \<or> (\<exists>r more. afterFirst l ys = Some r \<and>
                concat (map (rmatch (Lit l)) (map (\<lambda>(p, xs). MState p xs cs) (starLazy AnyCu q ys)))
                  = MState (Some (last l)) r cs # more)"
  using assms
proof (induction ys arbitrary: q)
  case Nil
  then show ?case by simp
next
  case (Cons y ys)
  show ?case
  proof (cases "prefix l (y # ys)")
    case True
    with Cons.prems show ?thesis by simp
  next
    case False
    with Cons.IH [OF Cons.prems, of "Some y"] show ?thesis by simp
  qed
qed

lemma execAt_block:
  "execAt blockCommentRegex p xs =
     (case blockCommentAt xs of None \<Rightarrow> None | Some r \<Rightarrow> Some (MState (Some 47) r []))"
proof (cases "prefix (js ''/*'') xs")
  case False
  then have "execAt blockCommentRegex p xs = None"
    using execAt_block_head by blast
  with False show ?thesis by (simp add: blockCommentAt_def)
next
  case True
  have l: "js ''*/'' \<noteq> []" "last (js ''*/'') = 47" by (simp_all add: slash_units)
  have "length (js ''/*'') = 2" by (simp add: slash_units)
  then have two: "drop 2 xs = drop (length (js ''/*'')) xs" by (simp only:)
  have r: "rmatch blockCommentRegex (MState p xs [])
      = concat (map (rmatch (Lit (js ''*/''))) (map (\<lambda>(p, xs). MState p xs []) (starLazy AnyCu (Some 42) (drop 2 xs))))"
    unfolding two using True by (simp add: blockCommentRegex_def) (simp add: slash_units)
  have b: "blockCommentAt xs = afterFirst (js ''*/'') (drop 2 xs)"
    using True by (simp add: blockCommentAt_def)
  let ?L = "concat (map (rmatch (Lit (js ''*/''))) (map (\<lambda>(p, xs). MState p xs []) (starLazy AnyCu (Some 42) (drop 2 xs))))"
  from lazy_then_literal [OF l(1), of "[]" "Some 42" "drop 2 xs"]
  have "?L = (case afterFirst (js ''*/'') (drop 2 xs) of None \<Rightarrow> [] | Some r \<Rightarrow> [MState (Some 47) r []])
           \<or> (\<exists>r more. afterFirst (js ''*/'') (drop 2 xs) = Some r \<and> ?L = MState (Some 47) r [] # more)"
    unfolding l(2) .
  then show ?thesis
  proof
    assume "?L = (case afterFirst (js ''*/'') (drop 2 xs) of None \<Rightarrow> [] | Some r \<Rightarrow> [MState (Some 47) r []])"
    then show ?thesis unfolding execAt_def r b by (simp split: option.splits)
  next
    assume "\<exists>r more. afterFirst (js ''*/'') (drop 2 xs) = Some r \<and> ?L = MState (Some 47) r [] # more"
    then obtain r' more where "afterFirst (js ''*/'') (drop 2 xs) = Some r'" "?L = MState (Some 47) r' [] # more"
      by blast
    then show ?thesis unfolding execAt_def r b by simp
  qed
qed

lemma blockCommentAt_shorter: "blockCommentAt xs = Some r \<Longrightarrow> length r < length xs"
proof -
  have "length r \<le> length ys" if "afterFirst l ys = Some r" for l ys r
    using that by (induction ys) (auto split: if_splits)
  then have a: "afterFirst l ys = Some r \<Longrightarrow> length r \<le> length ys" for l ys r by blast
  assume "blockCommentAt xs = Some r"
  then have p: "prefix (js ''/*'') xs" and "afterFirst (js ''*/'') (drop 2 xs) = Some r"
    by (simp_all add: blockCommentAt_def split: if_splits)
  then have "length r \<le> length (drop 2 xs)" using a by blast
  moreover from p have "xs \<noteq> []" by (auto simp: slash_units)
  ultimately show ?thesis by (cases xs) auto
qed

lemma replace_block_comments:
  "replaceFrom blockCommentRegex [] p xs = removeBlockComments xs"
proof (induction xs arbitrary: p rule: removeBlockComments.induct)
  case 1
  have "blockCommentAt [] = None" by (simp add: blockCommentAt_def slash_units)
  then have "execAt blockCommentRegex p [] = None" by (simp add: execAt_block)
  then show ?case by (simp add: replaceFrom_None_Nil removeBlockComments.simps)
next
  case (2 x xs)
  show ?case
  proof (cases "blockCommentAt (x # xs)")
    case None
    then have "execAt blockCommentRegex p (x # xs) = None" by (simp add: execAt_block)
    with None "2.IH"(1) [OF None] show ?thesis
      by (simp add: replaceFrom_None_Cons removeBlockComments.simps)
  next
    case (Some r)
    then have e: "execAt blockCommentRegex p (x # xs) = Some (MState (Some 47) r [])"
      by (simp add: execAt_block)
    from blockCommentAt_shorter [OF Some] have "length (rest (MState (Some 47) r [])) < length (x # xs)"
      by simp
    from replaceFrom_Some [OF e this, of "[]"] "2.IH"(2) [OF Some] Some show ?thesis
      by (simp add: removeBlockComments.simps)
  qed
qed

lemma dot_class: "inClass Dot = (\<lambda>c. \<not> isLineTerminator c)"
  by (rule ext) simp

lemma execAt_line_at:
  "execAt lineCommentRegex p xs =
     (case lineCommentAt xs of None \<Rightarrow> None
      | Some r \<Rightarrow> Some (MState (beforeOf (Some 47) (takeWhile (inClass Dot) (drop 2 xs))) r []))"
proof (cases "prefix (js ''//'') xs")
  case False
  then have "execAt lineCommentRegex p xs = None"
    using execAt_line_head by blast
  with False show ?thesis by (simp add: lineCommentAt_def)
next
  case True
  then obtain t where t: "xs = js ''//'' @ t" by (auto simp: prefix_def)
  have d: "drop 2 (js ''//'' @ t) = t" by (simp add: slash_units)
  show ?thesis
    unfolding t execAt_line lineCommentAt_def d dot_class by simp
qed

lemma lineCommentAt_shorter: "lineCommentAt xs = Some r \<Longrightarrow> length r < length xs"
proof -
  assume "lineCommentAt xs = Some r"
  then have p: "prefix (js ''//'') xs" and "r = dropWhile (\<lambda>c. \<not> isLineTerminator c) (drop 2 xs)"
    by (simp_all add: lineCommentAt_def split: if_splits)
  then have "length r \<le> length (drop 2 xs)" by (simp only: length_dropWhile_le)
  moreover from p have "xs \<noteq> []" by (auto simp: slash_units)
  ultimately show ?thesis by (cases xs) auto
qed

lemma replace_line_comments:
  "replaceFrom lineCommentRegex [] p xs = removeLineComments xs"
proof (induction xs arbitrary: p rule: removeLineComments.induct)
  case 1
  have "lineCommentAt [] = None" by (simp add: lineCommentAt_def slash_units)
  then have "execAt lineCommentRegex p [] = None" by (simp add: execAt_line_at)
  then show ?case by (simp add: replaceFrom_None_Nil removeLineComments.simps)
next
  case (2 x xs)
  show ?case
  proof (cases "lineCommentAt (x # xs)")
    case None
    then have "execAt lineCommentRegex p (x # xs) = None" by (simp add: execAt_line_at)
    with None "2.IH"(1) [OF None] show ?thesis
      by (simp add: replaceFrom_None_Cons removeLineComments.simps)
  next
    case (Some r)
    then obtain q where e: "execAt lineCommentRegex p (x # xs) = Some (MState q r [])"
      by (simp add: execAt_line_at)
    from lineCommentAt_shorter [OF Some] have "length (rest (MState q r [])) < length (x # xs)"
      by simp
    from replaceFrom_Some [OF e this, of "[]"] "2.IH"(2) [OF Some] Some show ?thesis
      by (simp add: removeLineComments.simps)
  qed
qed

lemma codeWithoutComments_removes:
  "codeWithoutComments c = removeLineComments (removeBlockComments c)"
  by (simp add: codeWithoutComments_def replaceAllG_def replace_block_comments replace_line_comments)

lemma blockCommentAt_None: "\<not> prefix (js ''/*'') xs \<Longrightarrow> blockCommentAt xs = None"
  by (simp add: blockCommentAt_def)

lemma lineCommentAt_None: "\<not> prefix (js ''//'') xs \<Longrightarrow> lineCommentAt xs = None"
  by (simp add: lineCommentAt_def)

lemma keep_two:
  assumes "\<not> sublist [a, b] c" "c = [] \<or> last c \<noteq> a \<or> \<not> prefix [b] behind" "c = x # c'"
  shows "\<not> prefix [a, b] (c @ behind)" "\<not> sublist [a, b] c'" "c' = [] \<or> last c' \<noteq> a \<or> \<not> prefix [b] behind"
proof -
  show "\<not> prefix [a, b] (c @ behind)"
  proof (cases c')
    case Nil
    with assms show ?thesis by (cases behind) auto
  next
    case (Cons y c'')
    with assms(1,3) show ?thesis by (auto simp: sublist_Cons_right)
  qed
  from assms(1,3) show "\<not> sublist [a, b] c'" by (simp add: sublist_Cons_right)
  from assms(2,3) show "c' = [] \<or> last c' \<noteq> a \<or> \<not> prefix [b] behind" by (cases c') auto
qed

lemma keep_block:
  "\<not> sublist (js ''/*'') c \<Longrightarrow> c = [] \<or> last c \<noteq> 47 \<or> \<not> prefix [42] behind \<Longrightarrow>
   removeBlockComments (c @ behind) = c @ removeBlockComments behind"
proof (induction c)
  case Nil
  show ?case by simp
next
  case (Cons x c')
  note k = keep_two [OF Cons.prems [unfolded slash_units] refl]
  from k(1) have "blockCommentAt (x # c' @ behind) = None"
    by (simp add: blockCommentAt_None slash_units)
  moreover have "removeBlockComments (c' @ behind) = c' @ removeBlockComments behind"
    using k(2,3) by (intro Cons.IH) (simp_all add: slash_units)
  ultimately show ?case by (simp add: removeBlockComments.simps)
qed

lemma keep_line:
  "\<not> sublist (js ''//'') c \<Longrightarrow> c = [] \<or> last c \<noteq> 47 \<or> \<not> prefix [47] behind \<Longrightarrow>
   removeLineComments (c @ behind) = c @ removeLineComments behind"
proof (induction c)
  case Nil
  show ?case by simp
next
  case (Cons x c')
  note k = keep_two [OF Cons.prems [unfolded slash_units] refl]
  from k(1) have "lineCommentAt (x # c' @ behind) = None"
    by (simp add: lineCommentAt_None slash_units)
  moreover have "removeLineComments (c' @ behind) = c' @ removeLineComments behind"
    using k(2,3) by (intro Cons.IH) (simp_all add: slash_units)
  ultimately show ?case by (simp add: removeLineComments.simps)
qed

lemma afterFirst_block_end:
  "\<not> sublist (js ''*/'') b \<Longrightarrow> afterFirst (js ''*/'') (b @ js ''*/'' @ behind) = Some behind"
proof (induction b)
  case Nil
  show ?case by (simp add: slash_units)
next
  case (Cons x b')
  from Cons.prems have n: "\<not> sublist (js ''*/'') b'" and p: "\<not> prefix (js ''*/'') (x # b')"
    by (simp_all add: sublist_Cons_right)
  from p have "\<not> prefix (js ''*/'') (x # b' @ js ''*/'' @ behind)"
    by (cases b') (auto simp: slash_units)
  with Cons.IH [OF n] show ?case by simp
qed

lemma drop_block:
  assumes "\<not> sublist (js ''*/'') b"
  shows "removeBlockComments (js ''/*'' @ b @ js ''*/'' @ behind) = removeBlockComments behind"
proof -
  have "blockCommentAt (47 # 42 # b @ js ''*/'' @ behind) = Some behind"
    using afterFirst_block_end [OF assms, of behind]
    by (simp add: blockCommentAt_def slash_units)
  then show ?thesis
    by (simp add: slash_units removeBlockComments.simps)
qed

lemma drop_line:
  assumes "\<forall>x\<in>set l. \<not> isLineTerminator x" "behind = [] \<or> isLineTerminator (hd behind)"
  shows "removeLineComments (js ''//'' @ l @ behind) = removeLineComments behind"
proof -
  from assms have "dropWhile (\<lambda>c. \<not> isLineTerminator c) (l @ behind) = behind"
    by (cases behind) (auto simp: dropWhile_append)
  then have "lineCommentAt (47 # 47 # l @ behind) = Some behind"
    by (simp add: lineCommentAt_def slash_units)
  then show ?thesis
    by (simp add: slash_units removeLineComments.simps)
qed

lemma fileOf_simps [simp]:
  "fileOf [] = []" "fileOf (s # segs) = render s @ fileOf segs"
  by (simp_all add: fileOf_def)

lemma startsNewLine_file:
  "startsNewLine segs \<Longrightarrow> fileOf segs = [] \<or> isLineTerminator (hd (fileOf segs))"
  by (induction segs rule: startsNewLine.induct) simp_all

lemma startsNewLine_withoutBlocks:
  "startsNewLine segs \<Longrightarrow>
   fileOf (withoutBlocks segs) = [] \<or> isLineTerminator (hd (fileOf (withoutBlocks segs)))"
  by (induction segs rule: startsNewLine.induct) simp_all

lemma star_no_terminator: "\<not> isLineTerminator 42"
  by (simp add: isLineTerminator_def)

lemma remove_blocks_of_file:
  "commented segs \<Longrightarrow> removeBlockComments (fileOf segs) = fileOf (withoutBlocks segs)"
proof (induction segs rule: commented.induct)
  case 1
  show ?case by (simp add: removeBlockComments.simps)
next
  case (2 c segs)
  then have "\<not> sublist (js ''/*'') c" "c = [] \<or> last c \<noteq> 47 \<or> \<not> prefix [42] (fileOf segs)"
    by auto
  from keep_block [OF this] 2 show ?case by simp
next
  case (3 b segs)
  then show ?case by (simp add: drop_block)
next
  case (4 l segs)
  then have a: "\<not> sublist (js ''/*'') (js ''//'' @ l)"
    by (cases l) (auto simp: slash_units sublist_Cons_right)
  from 4 startsNewLine_file [of segs] have "fileOf segs = [] \<or> isLineTerminator (hd (fileOf segs))"
    by simp
  then have b: "\<not> prefix [42] (fileOf segs)"
    using star_no_terminator by (cases "fileOf segs") auto
  from keep_block [OF a, of "fileOf segs"] b 4 show ?case by simp
qed

lemma remove_lines_of_file:
  "commented segs \<Longrightarrow> removeLineComments (fileOf (withoutBlocks segs)) = codeOf segs"
proof (induction segs rule: commented.induct)
  case 1
  show ?case by (simp add: removeLineComments.simps)
next
  case (2 c segs)
  then have "\<not> sublist (js ''//'') c"
    "c = [] \<or> last c \<noteq> 47 \<or> \<not> prefix [47] (fileOf (withoutBlocks segs))"
    by auto
  from keep_line [OF this] 2 show ?case by simp
next
  case (3 b segs)
  then show ?case by simp
next
  case (4 l segs)
  from 4 startsNewLine_withoutBlocks [of segs]
  have "fileOf (withoutBlocks segs) = [] \<or> isLineTerminator (hd (fileOf (withoutBlocks segs)))"
    by simp
  moreover from 4 have "\<forall>x\<in>set l. \<not> isLineTerminator x" by (simp add: list_all_iff)
  ultimately have "removeLineComments (js ''//'' @ l @ fileOf (withoutBlocks segs))
      = removeLineComments (fileOf (withoutBlocks segs))"
    by (intro drop_line)
  with 4 show ?case by simp
qed

lemma codeWithoutComments_file:
  "commented segs \<Longrightarrow> codeWithoutComments (fileOf segs) = codeOf segs"
  by (simp add: codeWithoutComments_removes remove_blocks_of_file remove_lines_of_file)

lemma codeOf_append: "codeOf (s1 @ s2) = codeOf s1 @ codeOf s2"
  by (induction s1 rule: codeOf.induct) simp_all

lemma callOf_in_code:
  assumes "segs = s1 @ Code (pre @ name @ ws @ js ''('' @ post) # s2"
    "\<forall>x\<in>set ws. isWhiteSpace x" "\<not> isWordAt (beforeOf None (codeOf s1 @ pre))"
  shows "callOf name (codeOf segs)"
proof -
  have "codeOf segs = (codeOf s1 @ pre) @ name @ ws @ js ''('' @ (post @ codeOf s2)"
    by (simp add: assms(1) codeOf_append)
  with assms(2,3) show ?thesis unfolding callOf_def by blast
qed

lemma no_call_in_empty: "\<not> callOf name []" "\<not> methodCallOf name []"
  by (simp_all add: callOf_def methodCallOf_def js_def)

lemma sem_Plus:
  "sem (Plus k) p w rs cs \<longleftrightarrow> w \<noteq> [] \<and> (\<forall>c\<in>set w. inClass k c) \<and> cs = []"
proof
  assume "sem (Plus k) p w rs cs"
  then show "w \<noteq> [] \<and> (\<forall>c\<in>set w. inClass k c) \<and> cs = []"
    by (auto simp: Plus_def)
next
  assume h: "w \<noteq> [] \<and> (\<forall>c\<in>set w. inClass k c) \<and> cs = []"
  then obtain c v where w: "w = c # v" by (cases w) auto
  with h have "w = [c] @ v \<and> cs = [] @ [] \<and> sem (Cls k) p [c] (v @ rs) [] \<and>
      sem (Star k) (beforeOf p [c]) v rs []"
    by simp
  then show "sem (Plus k) p w rs cs"
    unfolding Plus_def sem.simps(5) by blast
qed

lemma sem_Seq_Lit:
  "sem (Seq (Lit u) r) p w rs cs \<longleftrightarrow> (\<exists>v. w = u @ v \<and> sem r (beforeOf p u) v rs cs)"
  by auto

lemma sem_Seq_Star:
  "sem (Seq (Star k) r) p w rs cs \<longleftrightarrow>
     (\<exists>u v. w = u @ v \<and> (\<forall>c\<in>set u. inClass k c) \<and> sem r (beforeOf p u) v rs cs)"
  by auto

lemma sem_Seq_Plus:
  "sem (Seq (Plus k) r) p w rs cs \<longleftrightarrow>
     (\<exists>u v. w = u @ v \<and> u \<noteq> [] \<and> (\<forall>c\<in>set u. inClass k c) \<and> sem r (beforeOf p u) v rs cs)"
  by (simp add: sem_Plus)

lemma sem_Seq_Group_Plus:
  "sem (Seq (Group n (Plus k)) r) p w rs cs \<longleftrightarrow>
     (\<exists>u v cb. w = u @ v \<and> u \<noteq> [] \<and> (\<forall>c\<in>set u. inClass k c) \<and> cs = cb @ [(n, u)] \<and>
        sem r (beforeOf p u) v rs cb)"
  by (simp add: sem_Plus) blast

lemma sem_Seq_Group_Star:
  "sem (Seq (Group n (Star k)) r) p w rs cs \<longleftrightarrow>
     (\<exists>u v cb. w = u @ v \<and> (\<forall>c\<in>set u. inClass k c) \<and> cs = cb @ [(n, u)] \<and>
        sem r (beforeOf p u) v rs cb)"
  by simp blast

lemma ball_except: "(\<forall>c\<in>set u. inClass (Except d) c) \<longleftrightarrow> d \<notin> set u"
  by auto

lemma sem_function_raw:
  "sem functionRegex p w rs cs \<longleftrightarrow>
    (\<exists>v0. w = js ''function'' @ v0 \<and>
     (\<exists>ws1 v1. v0 = ws1 @ v1 \<and> ws1 \<noteq> [] \<and> (\<forall>c\<in>set ws1. isWhiteSpace c) \<and>
     (\<exists>name v2 cb. v1 = name @ v2 \<and> name \<noteq> [] \<and> (\<forall>c\<in>set name. isWordChar c) \<and> cs = cb @ [(1, name)] \<and>
     (\<exists>ws2 v3. v2 = ws2 @ v3 \<and> (\<forall>c\<in>set ws2. isWhiteSpace c) \<and>
     (\<exists>v4. v3 = js ''('' @ v4 \<and>
     (\<exists>params v5. v4 = params @ v5 \<and> 0x29 \<notin> set params \<and>
     (\<exists>v6. v5 = js '')'' @ v6 \<and>
     (\<exists>ws3 v7. v6 = ws3 @ v7 \<and> (\<forall>c\<in>set ws3. isWhiteSpace c) \<and>
     (\<exists>v8. v7 = js ''{'' @ v8 \<and>
     (\<exists>body v9 cb'. v8 = body @ v9 \<and> 0x7D \<notin> set body \<and> cb = cb' @ [(2, body)] \<and>
        v9 = js ''}'' \<and> cb' = []))))))))))"
  unfolding functionRegex_def seqs.simps sem_Seq_Lit sem_Seq_Plus sem_Seq_Group_Plus sem_Seq_Star
    sem_Seq_Group_Star sem.simps(1) ball_except inClass.simps
  by (rule refl)


lemma semSeqI:
  "sem a p u (v @ rs) ca \<Longrightarrow> sem b (beforeOf p u) v rs cb \<Longrightarrow> sem (Seq a b) p (u @ v) rs (cb @ ca)"
  by auto

lemma sem_function:
  "sem functionRegex p w rs cs \<longleftrightarrow>
     (\<exists>name body. functionDeclaration name body w \<and> cs = [(2, body), (1, name)])"
proof
  assume "sem functionRegex p w rs cs"
  then obtain ws1 name ws2 params ws3 body where
    "w = js ''function'' @ ws1 @ name @ ws2 @ js ''('' @ params @ js '')'' @ ws3 @ js ''{'' @ body @ js ''}''"
    "ws1 \<noteq> []" "\<forall>c\<in>set ws1. isWhiteSpace c" "name \<noteq> []" "\<forall>c\<in>set name. isWordChar c"
    "\<forall>c\<in>set ws2. isWhiteSpace c" "0x29 \<notin> set params" "\<forall>c\<in>set ws3. isWhiteSpace c"
    "0x7D \<notin> set body" "cs = [(2, body), (1, name)]"
    unfolding sem_function_raw by auto
  then show "\<exists>name body. functionDeclaration name body w \<and> cs = [(2, body), (1, name)]"
    unfolding functionDeclaration_def by blast
next
  assume "\<exists>name body. functionDeclaration name body w \<and> cs = [(2, body), (1, name)]"
  then obtain ws1 name ws2 params ws3 body where h:
    "w = js ''function'' @ ws1 @ name @ ws2 @ js ''('' @ params @ js '')'' @ ws3 @ js ''{'' @ body @ js ''}''"
    "ws1 \<noteq> []" "\<forall>c\<in>set ws1. isWhiteSpace c" "name \<noteq> []" "\<forall>c\<in>set name. isWordChar c"
    "\<forall>c\<in>set ws2. isWhiteSpace c" "0x29 \<notin> set params" "\<forall>c\<in>set ws3. isWhiteSpace c"
    "0x7D \<notin> set body" "cs = [(2, body), (1, name)]"
    unfolding functionDeclaration_def by blast
  have "sem functionRegex p
     (js ''function'' @ ws1 @ name @ ws2 @ js ''('' @ params @ js '')'' @ ws3 @ js ''{'' @ body @ js ''}'') rs
     (((((((((([] @ [(2, body)]) @ []) @ []) @ []) @ []) @ []) @ []) @ [(1, name)]) @ []) @ [])"
    unfolding functionRegex_def seqs.simps
    using h(2-9) by (intro semSeqI) (auto simp: sem_Plus)
  with h(1,10) show "sem functionRegex p w rs cs"
    by simp
qed

lemma sem_Seq_keyword:
  "sem (Seq (Alt (Lit a) (Alt (Lit b) (Lit c))) r) p w rs cs \<longleftrightarrow>
     (\<exists>kw v. w = kw @ v \<and> (kw = a \<or> kw = b \<or> kw = c) \<and> sem r (beforeOf p kw) v rs cs)"
proof -
  have "sem (Alt (Lit a) (Alt (Lit b) (Lit c))) p u x ca \<longleftrightarrow> (u = a \<or> u = b \<or> u = c) \<and> ca = []"
    for u x ca
    by auto
  then have "sem (Seq (Alt (Lit a) (Alt (Lit b) (Lit c))) r) p w rs cs \<longleftrightarrow>
     (\<exists>u v ca cb. w = u @ v \<and> cs = cb @ ca \<and> ((u = a \<or> u = b \<or> u = c) \<and> ca = []) \<and>
        sem r (beforeOf p u) v rs cb)"
    by (simp only: sem.simps(5))
  also have "\<dots> \<longleftrightarrow> (\<exists>kw v. w = kw @ v \<and> (kw = a \<or> kw = b \<or> kw = c) \<and> sem r (beforeOf p kw) v rs cs)"
    by simp
  finally show ?thesis .
qed

lemma sem_arrow_raw:
  "sem arrowRegex p w rs cs \<longleftrightarrow>
    (\<exists>kw v0. w = kw @ v0 \<and> (kw = js ''const'' \<or> kw = js ''let'' \<or> kw = js ''var'') \<and>
     (\<exists>ws1 v1. v0 = ws1 @ v1 \<and> ws1 \<noteq> [] \<and> (\<forall>c\<in>set ws1. isWhiteSpace c) \<and>
     (\<exists>name v2 cb. v1 = name @ v2 \<and> name \<noteq> [] \<and> (\<forall>c\<in>set name. isWordChar c) \<and> cs = cb @ [(1, name)] \<and>
     (\<exists>ws2 v3. v2 = ws2 @ v3 \<and> (\<forall>c\<in>set ws2. isWhiteSpace c) \<and>
     (\<exists>v4. v3 = js ''='' @ v4 \<and>
     (\<exists>ws3 v5. v4 = ws3 @ v5 \<and> (\<forall>c\<in>set ws3. isWhiteSpace c) \<and>
     (\<exists>v6. v5 = js ''('' @ v6 \<and>
     (\<exists>params v7. v6 = params @ v7 \<and> 0x29 \<notin> set params \<and>
     (\<exists>v8. v7 = js '')'' @ v8 \<and>
     (\<exists>ws4 v9. v8 = ws4 @ v9 \<and> (\<forall>c\<in>set ws4. isWhiteSpace c) \<and>
     (\<exists>v10. v9 = js ''=>'' @ v10 \<and>
     (\<exists>ws5 v11. v10 = ws5 @ v11 \<and> (\<forall>c\<in>set ws5. isWhiteSpace c) \<and>
     (\<exists>c'. cb = (2, v11) # c' \<and> v11 \<noteq> [] \<and> 0x3B \<notin> set v11 \<and> c' = [])))))))))))))"
  unfolding arrowRegex_def seqs.simps sem_Seq_keyword sem_Seq_Lit sem_Seq_Plus sem_Seq_Group_Plus
    sem_Seq_Star sem.simps(8) sem_Plus ball_except inClass.simps
  by (rule refl)

lemma sem_arrow:
  "sem arrowRegex p w rs cs \<longleftrightarrow>
     (\<exists>name body. arrowAssignment name body w \<and> cs = [(2, body), (1, name)])"
proof
  assume "sem arrowRegex p w rs cs"
  then obtain kw ws1 name ws2 ws3 params ws4 ws5 body where
    "w = kw @ ws1 @ name @ ws2 @ js ''='' @ ws3 @ js ''('' @ params @ js '')'' @ ws4 @ js ''=>'' @ ws5 @ body"
    "kw = js ''const'' \<or> kw = js ''let'' \<or> kw = js ''var''"
    "ws1 \<noteq> []" "\<forall>c\<in>set ws1. isWhiteSpace c" "name \<noteq> []" "\<forall>c\<in>set name. isWordChar c"
    "\<forall>c\<in>set ws2. isWhiteSpace c" "\<forall>c\<in>set ws3. isWhiteSpace c" "0x29 \<notin> set params"
    "\<forall>c\<in>set ws4. isWhiteSpace c" "\<forall>c\<in>set ws5. isWhiteSpace c" "body \<noteq> []" "0x3B \<notin> set body"
    "cs = [(2, body), (1, name)]"
    unfolding sem_arrow_raw by auto
  then show "\<exists>name body. arrowAssignment name body w \<and> cs = [(2, body), (1, name)]"
    unfolding arrowAssignment_def by blast
next
  assume "\<exists>name body. arrowAssignment name body w \<and> cs = [(2, body), (1, name)]"
  then obtain kw ws1 name ws2 ws3 params ws4 ws5 body where h:
    "w = kw @ ws1 @ name @ ws2 @ js ''='' @ ws3 @ js ''('' @ params @ js '')'' @ ws4 @ js ''=>'' @ ws5 @ body"
    "kw = js ''const'' \<or> kw = js ''let'' \<or> kw = js ''var''"
    "ws1 \<noteq> []" "\<forall>c\<in>set ws1. isWhiteSpace c" "name \<noteq> []" "\<forall>c\<in>set name. isWordChar c"
    "\<forall>c\<in>set ws2. isWhiteSpace c" "\<forall>c\<in>set ws3. isWhiteSpace c" "0x29 \<notin> set params"
    "\<forall>c\<in>set ws4. isWhiteSpace c" "\<forall>c\<in>set ws5. isWhiteSpace c" "body \<noteq> []" "0x3B \<notin> set body"
    "cs = [(2, body), (1, name)]"
    unfolding arrowAssignment_def by blast
  have last: "sem (Group 2 (Plus (Except 0x3B))) q body rs [(2, body)]" for q
    using h(12,13) by (auto simp: sem_Plus)
  have "sem arrowRegex p
     (kw @ ws1 @ name @ ws2 @ js ''='' @ ws3 @ js ''('' @ params @ js '')'' @ ws4 @ js ''=>'' @ ws5 @ body) rs
     (((((((((((([(2, body)] @ []) @ []) @ []) @ []) @ []) @ []) @ []) @ []) @ []) @ [(1, name)]) @ []) @ [])"
    unfolding arrowRegex_def seqs.simps
    using h(2-11) last by (intro semSeqI) (auto simp: sem_Plus)
  with h(1,14) show "sem arrowRegex p w rs cs"
    by simp
qed

lemma matchesFrom_sound:
  "m \<in> set (matchesFrom r p xs) \<Longrightarrow>
   \<exists>pre rs S. xs = pre @ matched m @ rs \<and>
      execAt r (beforeOf p pre) (matched m @ rs) = Some S \<and> rest S = rs \<and> caps S = groups m"
proof (induction "length xs" arbitrary: p xs rule: less_induct)
  case less
  let ?goal = "\<exists>pre rs S. xs = pre @ matched m @ rs \<and>
      execAt r (beforeOf p pre) (matched m @ rs) = Some S \<and> rest S = rs \<and> caps S = groups m"
  have skip: ?goal if xs: "xs = y # ys" and m: "m \<in> set (matchesFrom r (Some y) ys)" for y ys
  proof -
    from less.hyps [OF _ m] xs obtain pre rs S where
      "ys = pre @ matched m @ rs" "execAt r (beforeOf (Some y) pre) (matched m @ rs) = Some S"
      "rest S = rs" "caps S = groups m"
      by auto
    then have "xs = (y # pre) @ matched m @ rs \<and>
      execAt r (beforeOf p (y # pre)) (matched m @ rs) = Some S \<and> rest S = rs \<and> caps S = groups m"
      using xs by (simp add: beforeOf_Cons)
    then show ?thesis by blast
  qed
  show ?case
  proof (cases "execAt r p xs")
    case None
    show ?thesis
    proof (cases xs)
      case Nil
      with None less.prems show ?thesis by (subst (asm) matchesFrom.simps) simp
    next
      case (Cons y ys)
      with None less.prems have "m \<in> set (matchesFrom r (Some y) ys)"
        by (subst (asm) matchesFrom.simps) simp
      with Cons show ?thesis by (rule skip)
    qed
  next
    case (Some S0)
    from execAt_rest [OF Some] obtain w where w: "xs = w @ rest S0" "before S0 = beforeOf p w"
      by blast
    show ?thesis
    proof (cases "length (rest S0) < length xs")
      case True
      with Some less.prems have
        "m = JsMatch (take (length xs - length (rest S0)) xs) (caps S0) \<or>
         m \<in> set (matchesFrom r (before S0) (rest S0))"
        by (subst (asm) matchesFrom.simps) simp
      then show ?thesis
      proof
        assume "m = JsMatch (take (length xs - length (rest S0)) xs) (caps S0)"
        with w have "matched m = w" "groups m = caps S0" by simp_all
        with w Some have "xs = [] @ matched m @ rest S0 \<and>
          execAt r (beforeOf p []) (matched m @ rest S0) = Some S0 \<and> rest S0 = rest S0 \<and> caps S0 = groups m"
          by simp
        then show ?thesis by blast
      next
        assume "m \<in> set (matchesFrom r (before S0) (rest S0))"
        from less.hyps [OF True this] obtain pre rs S where
          "rest S0 = pre @ matched m @ rs" "execAt r (beforeOf (before S0) pre) (matched m @ rs) = Some S"
          "rest S = rs" "caps S = groups m"
          by auto
        with w have "xs = (w @ pre) @ matched m @ rs \<and>
          execAt r (beforeOf p (w @ pre)) (matched m @ rs) = Some S \<and> rest S = rs \<and> caps S = groups m"
          by (simp add: beforeOf_append)
        then show ?thesis by blast
      qed
    next
      case False
      with w have wn: "w = []" by (cases w) auto
      show ?thesis
      proof (cases xs)
        case Nil
        with Some False less.prems have "m = JsMatch [] (caps S0)"
          by (subst (asm) matchesFrom.simps) simp
        with Nil Some w wn have "xs = [] @ matched m @ [] \<and>
          execAt r (beforeOf p []) (matched m @ []) = Some S0 \<and> rest S0 = [] \<and> caps S0 = groups m"
          by simp
        then show ?thesis by blast
      next
        case (Cons y ys)
        with Some False less.prems have
          "m = JsMatch [] (caps S0) \<or> m \<in> set (matchesFrom r (Some y) ys)"
          by (subst (asm) matchesFrom.simps) simp
        then show ?thesis
        proof
          assume "m = JsMatch [] (caps S0)"
          with Some w wn have "xs = [] @ matched m @ xs \<and>
            execAt r (beforeOf p []) (matched m @ xs) = Some S0 \<and> rest S0 = xs \<and> caps S0 = groups m"
            by simp
          then show ?thesis by blast
        next
          assume "m \<in> set (matchesFrom r (Some y) ys)"
          with Cons show ?thesis by (rule skip)
        qed
      qed
    qed
  qed
qed

lemma matchAll_sem:
  assumes "m \<in> set (matchAll r c)"
  shows "\<exists>pre rs. c = pre @ matched m @ rs \<and> sem r (beforeOf None pre) (matched m) rs (groups m)"
proof -
  from matchesFrom_sound [OF assms [unfolded matchAll_def]] obtain pre rs S where
    h: "c = pre @ matched m @ rs" "execAt r (beforeOf None pre) (matched m @ rs) = Some S"
    "rest S = rs" "caps S = groups m"
    by blast
  from execAt_rest [OF h(2)] h(3,4) have "sem r (beforeOf None pre) (matched m) rs (groups m)"
    by auto
  with h(1) show ?thesis by blast
qed

lemma setAll_map_of:
  "map_of (setAll bodies ms) = map_of (rev (map (\<lambda>m. (capture m 1, capture m 2)) ms) @ bodies)"
proof (induction ms arbitrary: bodies)
  case Nil
  show ?case by simp
next
  case (Cons m ms)
  have "map_of (setAll bodies (m # ms))
      = map_of (rev (map (\<lambda>m. (capture m 1, capture m 2)) ms) @ AList.update (capture m 1) (capture m 2) bodies)"
    by (simp add: Cons)
  also have "\<dots> = map_of (AList.update (capture m 1) (capture m 2) bodies)
      ++ map_of (rev (map (\<lambda>m. (capture m 1, capture m 2)) ms))"
    by (rule map_of_append)
  also have "map_of (AList.update (capture m 1) (capture m 2) bodies)
      = map_of ((capture m 1, capture m 2) # bodies)"
    by (simp add: update_conv')
  also have "map_of ((capture m 1, capture m 2) # bodies)
      ++ map_of (rev (map (\<lambda>m. (capture m 1, capture m 2)) ms))
      = map_of (rev (map (\<lambda>m. (capture m 1, capture m 2)) ms) @ (capture m 1, capture m 2) # bodies)"
    by (rule map_of_append [symmetric])
  finally show ?case by simp
qed

lemma setAll_distinct: "distinct (map fst bodies) \<Longrightarrow> distinct (map fst (setAll bodies ms))"
  by (induction ms arbitrary: bodies) (simp_all add: distinct_update)

lemma word_not_space: "isWordChar c \<Longrightarrow> \<not> isWhiteSpace c"
proof
  assume w: "isWordChar c" and s: "isWhiteSpace c"
  from w have "48 \<le> unat c \<and> unat c \<le> 122"
    unfolding isWordChar_def word_le_nat_alt by auto
  moreover from s have "unat c < 48 \<or> 122 < unat c"
    unfolding isWhiteSpace_def word_le_nat_alt by auto
  ultimately show False by arith
qed

lemma first_SeqE:
  assumes "rmatch (Seq a b) s = S # Ss"
  obtains T Ts where "rmatch b T = S # Ts"
proof -
  have "\<exists>T Ts. rmatch b T = S # Ts" if "concat (map (rmatch b) xs) = S # Ss" for xs
    using that
  proof (induction xs)
    case Nil
    then show ?case by simp
  next
    case (Cons x xs)
    show ?case
    proof (cases "rmatch b x")
      case Nil
      with Cons show ?thesis by simp
    next
      case (Cons y ys)
      with Cons.prems have "rmatch b x = S # ys" by simp
      then show ?thesis by blast
    qed
  qed
  from this [of "rmatch a s"] assms obtain T Ts where "rmatch b T = S # Ts"
    by auto
  then show ?thesis by (rule that)
qed

lemma first_Group_Plus:
  assumes "rmatch (Group n (Plus k)) T = S # Ts"
  shows "rest S = [] \<or> \<not> inClass k (hd (rest S))"
proof -
  from assms obtain S' Ts' where p: "rmatch (Plus k) T = S' # Ts'" and r: "rest S = rest S'"
    by (cases "rmatch (Plus k) T") auto
  from p obtain x xs where T: "rest T = x # xs" "inClass k x"
    and s: "rmatch (Star k) (MState (Some x) xs (caps T)) = S' # Ts'"
    by (cases "rest T") (auto simp: Plus_def split: if_splits)
  obtain q ys qs where g: "starGreedy k (Some x) xs = (q, ys) # qs" and "ys = dropWhile (inClass k) xs"
    using starGreedy_hd [of k "Some x" xs] by (cases "starGreedy k (Some x) xs") auto
  with s have "rest S' = dropWhile (inClass k) xs" by auto
  with r show ?thesis
    using hd_dropWhile [of "inClass k" xs] by auto
qed

lemma execAt_arrow_maximal:
  assumes "execAt arrowRegex p xs = Some S"
  shows "rest S = [] \<or> hd (rest S) = 0x3B"
proof -
  from assms obtain Ss where "rmatch arrowRegex (MState p xs []) = S # Ss"
    by (auto simp: execAt_def split: list.splits)
  then obtain T Ts where "rmatch (Group 2 (Plus (Except 0x3B))) T = S # Ts"
    unfolding arrowRegex_def seqs.simps by (elim first_SeqE)
  from first_Group_Plus [OF this] show ?thesis by simp
qed

lemma while_stop:
  "(\<forall>c\<in>set u. P c) \<Longrightarrow> v = [] \<or> \<not> P (hd v) \<Longrightarrow>
   takeWhile P (u @ v) = u \<and> dropWhile P (u @ v) = v"
  by (induction u) (auto simp: takeWhile_eq_Nil_iff dropWhile_eq_self_iff)

lemma afterLiteral_Some: "afterLiteral l xs = Some t \<longleftrightarrow> xs = l @ t"
  by (auto simp: afterLiteral_def prefix_def)

lemma afterLiteral_append [simp]: "afterLiteral l (l @ v) = Some v"
  by (simp add: afterLiteral_Some)

lemma nameAfter_complete:
  assumes "ws1 \<noteq> []" "\<forall>c\<in>set ws1. isWhiteSpace c" "name \<noteq> []" "\<forall>c\<in>set name. isWordChar c"
    "\<forall>c\<in>set ws2. isWhiteSpace c" "v = [] \<or> \<not> isWhiteSpace (hd v) \<and> \<not> isWordChar (hd v)"
  shows "nameAfter (ws1 @ name @ ws2 @ v) = Some (name, v)"
proof -
  from assms(3,4) have "\<not> isWhiteSpace (hd (name @ ws2 @ v))"
    using word_not_space by (cases name) auto
  with while_stop [OF assms(2), of "name @ ws2 @ v"]
  have 1: "takeWhile isWhiteSpace (ws1 @ name @ ws2 @ v) = ws1"
    "dropWhile isWhiteSpace (ws1 @ name @ ws2 @ v) = name @ ws2 @ v" by simp_all
  from assms(5,6) have "ws2 @ v = [] \<or> \<not> isWordChar (hd (ws2 @ v))"
    using word_not_space by (cases ws2) auto
  with while_stop [OF assms(4), of "ws2 @ v"]
  have 2: "takeWhile isWordChar (name @ ws2 @ v) = name" "dropWhile isWordChar (name @ ws2 @ v) = ws2 @ v"
    by simp_all
  from assms(6) while_stop [OF assms(5), of v]
  have 3: "dropWhile isWhiteSpace (ws2 @ v) = v" by auto
  show ?thesis
    unfolding nameAfter_def Let_def 1 2 3 using assms(1,3) by simp
qed

lemma nameAfter_sound:
  assumes "nameAfter xs = Some (name, v)"
  shows "\<exists>ws1 ws2. xs = ws1 @ name @ ws2 @ v \<and> ws1 \<noteq> [] \<and> (\<forall>c\<in>set ws1. isWhiteSpace c) \<and>
     name \<noteq> [] \<and> (\<forall>c\<in>set name. isWordChar c) \<and> (\<forall>c\<in>set ws2. isWhiteSpace c) \<and>
     (v = [] \<or> \<not> isWhiteSpace (hd v))"
proof -
  let ?ws1 = "takeWhile isWhiteSpace xs" and ?ys = "dropWhile isWhiteSpace xs"
  let ?zs = "dropWhile isWordChar ?ys"
  let ?ws2 = "takeWhile isWhiteSpace ?zs"
  from assms have h: "?ws1 \<noteq> []" "name = takeWhile isWordChar ?ys" "name \<noteq> []"
    "v = dropWhile isWhiteSpace ?zs"
    by (auto simp: nameAfter_def Let_def split: if_splits)
  have "xs = ?ws1 @ ?ys" by simp
  also have "?ys = name @ ?zs" unfolding h(2) by simp
  also have "?zs = ?ws2 @ v" unfolding h(4) by simp
  finally have "xs = ?ws1 @ name @ ?ws2 @ v" .
  moreover have "\<forall>c\<in>set ?ws1. isWhiteSpace c" "\<forall>c\<in>set ?ws2. isWhiteSpace c"
    "\<forall>c\<in>set name. isWordChar c"
    unfolding h(2) by (auto dest: set_takeWhileD)
  moreover have "v = [] \<or> \<not> isWhiteSpace (hd v)"
    unfolding h(4) using hd_dropWhile [of isWhiteSpace ?zs] by blast
  ultimately show ?thesis using h(1,3) by blast
qed

lemma parametersAt_complete:
  assumes "0x29 \<notin> set params" "\<forall>c\<in>set ws. isWhiteSpace c" "v = [] \<or> \<not> isWhiteSpace (hd v)"
  shows "parametersAt (js ''('' @ params @ js '')'' @ ws @ v) = Some v"
proof -
  have "\<forall>c\<in>set params. c \<noteq> 0x29" using assms(1) by auto
  from while_stop [OF this, of "js '')'' @ ws @ v"]
  have 1: "dropWhile (\<lambda>c. c \<noteq> 0x29) (params @ js '')'' @ ws @ v) = js '')'' @ ws @ v"
    by (simp add: js_def)
  from while_stop [OF assms(2,3)] have 2: "dropWhile isWhiteSpace (ws @ v) = v" by simp
  show ?thesis
    unfolding parametersAt_def by (simp add: 1 2)
qed

lemma parametersAt_sound:
  assumes "parametersAt xs = Some v"
  shows "\<exists>params ws. xs = js ''('' @ params @ js '')'' @ ws @ v \<and> 0x29 \<notin> set params \<and>
     (\<forall>c\<in>set ws. isWhiteSpace c) \<and> (v = [] \<or> \<not> isWhiteSpace (hd v))"
proof -
  from assms obtain ys zs where h: "xs = js ''('' @ ys"
    "dropWhile (\<lambda>c. c \<noteq> 0x29) ys = js '')'' @ zs" "v = dropWhile isWhiteSpace zs"
    by (auto simp: parametersAt_def bind_eq_Some_conv afterLiteral_Some)
  let ?params = "takeWhile (\<lambda>c. c \<noteq> 0x29) ys" and ?ws = "takeWhile isWhiteSpace zs"
  have "ys = ?params @ dropWhile (\<lambda>c. c \<noteq> 0x29) ys" by simp
  also have "dropWhile (\<lambda>c. c \<noteq> 0x29) ys = js '')'' @ ?ws @ v" unfolding h(2,3) by simp
  finally have "xs = js ''('' @ ?params @ js '')'' @ ?ws @ v" using h(1) by simp
  moreover have "0x29 \<notin> set ?params" "\<forall>c\<in>set ?ws. isWhiteSpace c"
    by (auto dest: set_takeWhileD)
  moreover have "v = [] \<or> \<not> isWhiteSpace (hd v)"
    unfolding h(3) using hd_dropWhile [of isWhiteSpace zs] by blast
  ultimately show ?thesis by blast
qed

lemma paren_units: "js ''('' = [0x28]" "js '')'' = [0x29]" "js ''{'' = [0x7B]" "js ''}'' = [0x7D]"
  "js ''='' = [0x3D]" "js ''=>'' = [0x3D, 0x3E]"
  by (simp_all add: js_def)

lemma not_space_word:
  "\<not> isWhiteSpace 0x28" "\<not> isWordChar 0x28" "\<not> isWhiteSpace 0x7B" "\<not> isWhiteSpace 0x3D"
  "\<not> isWordChar 0x3D" "\<not> isWhiteSpace 0x3B"
  by (simp_all add: isWhiteSpace_def isWordChar_def)

lemma functionAt_complete:
  assumes "functionDeclaration n b d"
  shows "functionAt (d @ r) = Some ((n, b), r)"
proof -
  from assms obtain ws1 ws2 params ws3 where h:
    "d = js ''function'' @ ws1 @ n @ ws2 @ js ''('' @ params @ js '')'' @ ws3 @ js ''{'' @ b @ js ''}''"
    "ws1 \<noteq> []" "\<forall>c\<in>set ws1. isWhiteSpace c" "n \<noteq> []" "\<forall>c\<in>set n. isWordChar c"
    "\<forall>c\<in>set ws2. isWhiteSpace c" "0x29 \<notin> set params" "\<forall>c\<in>set ws3. isWhiteSpace c"
    "0x7D \<notin> set b"
    unfolding functionDeclaration_def by blast
  let ?v3 = "js ''{'' @ b @ js ''}'' @ r"
  let ?v2 = "js ''('' @ params @ js '')'' @ ws3 @ ?v3"
  have 1: "nameAfter (ws1 @ n @ ws2 @ ?v2) = Some (n, ?v2)"
    using h(2-6) by (intro nameAfter_complete) (simp_all add: paren_units not_space_word)
  have 2: "parametersAt ?v2 = Some ?v3"
    using h(7,8) by (intro parametersAt_complete) (simp_all add: paren_units not_space_word)
  have "\<forall>c\<in>set b. c \<noteq> 0x7D" using h(9) by auto
  from while_stop [OF this, of "js ''}'' @ r"]
  have 3: "takeWhile (\<lambda>c. c \<noteq> 0x7D) (b @ js ''}'' @ r) = b"
    "dropWhile (\<lambda>c. c \<noteq> 0x7D) (b @ js ''}'' @ r) = js ''}'' @ r"
    by (simp_all add: paren_units)
  show ?thesis
    unfolding functionAt_def h(1) by (simp add: 1 2 3)
qed

lemma functionAt_sound:
  assumes "functionAt xs = Some ((n, b), r)"
  shows "\<exists>d. xs = d @ r \<and> functionDeclaration n b d"
proof -
  from assms obtain t1 t2 t3 t4 where h: "xs = js ''function'' @ t1" "nameAfter t1 = Some (n, t2)"
    "parametersAt t2 = Some t3" "t3 = js ''{'' @ t4"
    "dropWhile (\<lambda>c. c \<noteq> 0x7D) t4 = js ''}'' @ r" "b = takeWhile (\<lambda>c. c \<noteq> 0x7D) t4"
    by (auto simp: functionAt_def bind_eq_Some_conv afterLiteral_Some)
  from nameAfter_sound [OF h(2)] obtain ws1 ws2 where n: "t1 = ws1 @ n @ ws2 @ t2" "ws1 \<noteq> []"
    "\<forall>c\<in>set ws1. isWhiteSpace c" "n \<noteq> []" "\<forall>c\<in>set n. isWordChar c" "\<forall>c\<in>set ws2. isWhiteSpace c"
    by blast
  from parametersAt_sound [OF h(3)] obtain params ws3 where p:
    "t2 = js ''('' @ params @ js '')'' @ ws3 @ t3" "0x29 \<notin> set params" "\<forall>c\<in>set ws3. isWhiteSpace c"
    by blast
  have "t4 = b @ dropWhile (\<lambda>c. c \<noteq> 0x7D) t4" unfolding h(6) by simp
  then have t4: "t4 = b @ js ''}'' @ r" unfolding h(5) .
  have b: "0x7D \<notin> set b" unfolding h(6) by (auto dest: set_takeWhileD)
  let ?d = "js ''function'' @ ws1 @ n @ ws2 @ js ''('' @ params @ js '')'' @ ws3 @ js ''{'' @ b @ js ''}''"
  have "xs = ?d @ r" unfolding h(1) n(1) p(1) h(4) using t4 by simp
  moreover have "functionDeclaration n b ?d"
    unfolding functionDeclaration_def using n(2-6) p(2,3) b by blast
  ultimately show ?thesis by blast
qed

lemma execAt_function:
  assumes "execAt functionRegex p xs = Some m"
  shows "\<exists>n b. caps m = [(2, b), (1, n)] \<and> functionAt xs = Some ((n, b), rest m)"
proof -
  from execAt_rest [OF assms] obtain w where w: "xs = w @ rest m" "sem functionRegex p w (rest m) (caps m)"
    by blast
  from w(2) obtain n b where "functionDeclaration n b w" "caps m = [(2, b), (1, n)]"
    unfolding sem_function by blast
  with functionAt_complete [of n b w "rest m"] w(1) show ?thesis by simp
qed

lemma functionAt_exec:
  assumes "functionAt xs = Some z"
  shows "execAt functionRegex p xs \<noteq> None"
proof -
  obtain n b r where z: "z = ((n, b), r)" by (cases z) auto
  from functionAt_sound [OF assms [unfolded z]] obtain d where "xs = d @ r" "functionDeclaration n b d"
    by blast
  then have "xs = d @ r \<and> sem functionRegex p d r [(2, b), (1, n)]"
    unfolding sem_function by blast
  then show ?thesis unfolding execAt_sem by blast
qed

lemma functionAt_shorter:
  assumes "functionAt xs = Some (z, r)"
  shows "length r < length xs"
proof -
  obtain n b where z: "z = (n, b)" by (cases z) auto
  from functionAt_sound [OF assms [unfolded z]] obtain d where "xs = d @ r" "functionDeclaration n b d"
    by blast
  moreover from this(2) have "d \<noteq> []" unfolding functionDeclaration_def by (auto simp: js_def)
  ultimately show ?thesis by simp
qed

lemma scanWith_Nil: "scanWith at [] = []"
  by (simp add: scanWith.simps)

lemma scanWith_None: "at (x # xs) = None \<Longrightarrow> scanWith at (x # xs) = scanWith at xs"
  by (simp add: scanWith.simps)

lemma scanWith_Some:
  "at xs = Some (d, r) \<Longrightarrow> length r < length xs \<Longrightarrow> scanWith at xs = d # scanWith at r"
  by (cases xs) (simp_all add: scanWith.simps)

lemma scan_matches:
  assumes some: "\<And>p xs m. execAt r p xs = Some m \<Longrightarrow>
      \<exists>n b. caps m = [(2, b), (1, n)] \<and> at xs = Some ((n, b), rest m)"
    and none: "\<And>p xs z. at xs = Some z \<Longrightarrow> execAt r p xs \<noteq> None"
    and shorter: "\<And>xs z t. at xs = Some (z, t) \<Longrightarrow> length t < length xs"
  shows "map (\<lambda>m. (capture m 1, capture m 2)) (matchesFrom r p xs) = scanWith at xs"
proof (induction "length xs" arbitrary: p xs rule: less_induct)
  case less
  show ?case
  proof (cases "execAt r p xs")
    case None
    with none [of xs _ p] have a: "at xs = None" by (cases "at xs") auto
    show ?thesis
    proof (cases xs)
      case Nil
      with None show ?thesis by (subst matchesFrom.simps) (simp add: scanWith_Nil)
    next
      case (Cons y ys)
      with None a less [of ys "Some y"] show ?thesis
        by (subst matchesFrom.simps) (simp add: scanWith_None)
    qed
  next
    case (Some m)
    from some [OF Some] obtain n b where m: "caps m = [(2, b), (1, n)]" "at xs = Some ((n, b), rest m)"
      by blast
    from shorter [OF m(2)] have l: "length (rest m) < length xs" .
    have "matchesFrom r p xs
        = JsMatch (take (length xs - length (rest m)) xs) (caps m) # matchesFrom r (before m) (rest m)"
      using Some l by (subst matchesFrom.simps) simp
    with less [OF l, of "before m"] m(1) scanWith_Some [of at xs "(n, b)" "rest m", OF m(2) l] show ?thesis
      by (simp add: capture_def)
  qed
qed

lemma scanFunctions_matches:
  "map (\<lambda>m. (capture m 1, capture m 2)) (matchAll functionRegex c) = scanFunctions c"
  unfolding matchAll_def scanFunctions_def
proof (rule scan_matches)
  show "\<exists>n b. caps m = [(2, b), (1, n)] \<and> functionAt xs = Some ((n, b), rest m)"
    if "execAt functionRegex p xs = Some m" for p xs m
    using that by (rule execAt_function)
  show "execAt functionRegex p xs \<noteq> None" if "functionAt xs = Some z" for p xs z
    using that by (rule functionAt_exec)
  show "length t < length xs" if "functionAt xs = Some (z, t)" for xs z t
    using that by (rule functionAt_shorter)
qed

lemma keywordAt_complete:
  "kw = js ''const'' \<or> kw = js ''let'' \<or> kw = js ''var'' \<Longrightarrow> keywordAt (kw @ v) = Some v"
  unfolding keywordAt_def
  by (elim disjE) (simp_all add: afterLiteral_def js_def)

lemma keywordAt_sound:
  "keywordAt xs = Some v \<Longrightarrow>
   \<exists>kw. xs = kw @ v \<and> (kw = js ''const'' \<or> kw = js ''let'' \<or> kw = js ''var'')"
  unfolding keywordAt_def
  by (auto simp: afterLiteral_Some split: option.splits)

lemma arrowBodyAt_complete:
  assumes "\<forall>c\<in>set ws. isWhiteSpace c" "b \<noteq> []" "0x3B \<notin> set b" "r = [] \<or> hd r = 0x3B"
    "\<not> isWhiteSpace (hd b) \<or> length b = 1"
  shows "arrowBodyAt (ws @ b @ r) = Some (b, r)"
proof (cases "isWhiteSpace (hd b)")
  case False
  with assms(2) have "b @ r = [] \<or> \<not> isWhiteSpace (hd (b @ r))" by simp
  from while_stop [OF assms(1) this]
  have 1: "takeWhile isWhiteSpace (ws @ b @ r) = ws" "dropWhile isWhiteSpace (ws @ b @ r) = b @ r"
    by simp_all
  have "\<forall>c\<in>set b. c \<noteq> 0x3B" using assms(3) by auto
  moreover have "r = [] \<or> \<not> hd r \<noteq> 0x3B" using assms(4) by simp
  ultimately have 2: "takeWhile (\<lambda>c. c \<noteq> 0x3B) (b @ r) = b" "dropWhile (\<lambda>c. c \<noteq> 0x3B) (b @ r) = r"
    using while_stop [of b "\<lambda>c. c \<noteq> 0x3B" r] by simp_all
  show ?thesis
    unfolding arrowBodyAt_def Let_def 1 2 using assms(2) by simp
next
  case True
  with assms(5) obtain w where b: "b = [w]" "isWhiteSpace w"
    by (cases b) auto
  have "\<forall>c\<in>set (ws @ [w]). isWhiteSpace c" using assms(1) b(2) by simp
  moreover have "r = [] \<or> \<not> isWhiteSpace (hd r)" using assms(4) not_space_word(6) by auto
  ultimately have "takeWhile isWhiteSpace ((ws @ [w]) @ r) = ws @ [w] \<and>
      dropWhile isWhiteSpace ((ws @ [w]) @ r) = r"
    by (rule while_stop)
  then have 1: "takeWhile isWhiteSpace (ws @ b @ r) = ws @ [w]" "dropWhile isWhiteSpace (ws @ b @ r) = r"
    by (simp_all add: b(1))
  have 2: "takeWhile (\<lambda>c. c \<noteq> 0x3B) r = []"
    using assms(4) by (cases r) auto
  show ?thesis
    unfolding arrowBodyAt_def Let_def 1 2 by (simp add: b(1))
qed

lemma arrowBodyAt_sound:
  assumes "arrowBodyAt xs = Some (b, r)"
  shows "\<exists>ws. xs = ws @ b @ r \<and> (\<forall>c\<in>set ws. isWhiteSpace c) \<and> b \<noteq> [] \<and> 0x3B \<notin> set b \<and>
     (r = [] \<or> hd r = 0x3B) \<and> (\<not> isWhiteSpace (hd b) \<or> length b = 1)"
proof -
  let ?ws = "takeWhile isWhiteSpace xs" and ?ys = "dropWhile isWhiteSpace xs"
  let ?body = "takeWhile (\<lambda>c. c \<noteq> 0x3B) ?ys"
  show ?thesis
  proof (cases "?body = []")
    case False
    with assms have h: "b = ?body" "r = dropWhile (\<lambda>c. c \<noteq> 0x3B) ?ys"
      by (simp_all add: arrowBodyAt_def Let_def)
    have "xs = ?ws @ ?ys" by simp
    also have "?ys = b @ r" unfolding h by simp
    finally have "xs = ?ws @ b @ r" .
    moreover have "\<forall>c\<in>set ?ws. isWhiteSpace c" by (auto dest: set_takeWhileD)
    moreover have "0x3B \<notin> set b" unfolding h by (auto dest: set_takeWhileD)
    moreover have "r = [] \<or> hd r = 0x3B"
      unfolding h using hd_dropWhile [of "\<lambda>c. c \<noteq> 0x3B" ?ys] by blast
    moreover have "?ys \<noteq> []"
    proof
      assume "?ys = []"
      then have "?body = []" by (simp only: takeWhile.simps)
      with False show False by simp
    qed
    then have "\<not> isWhiteSpace (hd ?ys)" by (rule hd_dropWhile)
    then have "\<not> isWhiteSpace (hd b)"
      unfolding h using False by (cases ?ys) (auto split: if_splits)
    ultimately show ?thesis using False h(1) by blast
  next
    case True
    with assms have h: "?ws \<noteq> []" "b = [last ?ws]" "r = ?ys"
      by (auto simp: arrowBodyAt_def Let_def split: if_splits)
    have "xs = ?ws @ ?ys" by simp
    also have "?ws = butlast ?ws @ [last ?ws]" using h(1) by simp
    finally have "xs = butlast ?ws @ b @ r" unfolding h(2,3) by simp
    moreover have w: "\<forall>c\<in>set ?ws. isWhiteSpace c" by (auto dest: set_takeWhileD)
    then have "\<forall>c\<in>set (butlast ?ws). isWhiteSpace c" by (auto dest: in_set_butlastD)
    moreover from w h(1) have "isWhiteSpace (last ?ws)" by simp
    then have "0x3B \<notin> set b" unfolding h(2) using not_space_word(6) by auto
    moreover from True have "r = [] \<or> hd r = 0x3B"
      unfolding h(3) by (cases ?ys) (auto split: if_splits)
    ultimately show ?thesis using h(2) by auto
  qed
qed

lemma arrowAt_complete:
  assumes "arrowAssignment n b d" "r = [] \<or> hd r = 0x3B" "\<not> isWhiteSpace (hd b) \<or> length b = 1"
  shows "arrowAt (d @ r) = Some ((n, b), r)"
proof -
  from assms(1) obtain kw ws1 ws2 ws3 params ws4 ws5 where h:
    "d = kw @ ws1 @ n @ ws2 @ js ''='' @ ws3 @ js ''('' @ params @ js '')'' @ ws4 @ js ''=>'' @ ws5 @ b"
    "kw = js ''const'' \<or> kw = js ''let'' \<or> kw = js ''var''"
    "ws1 \<noteq> []" "\<forall>c\<in>set ws1. isWhiteSpace c" "n \<noteq> []" "\<forall>c\<in>set n. isWordChar c"
    "\<forall>c\<in>set ws2. isWhiteSpace c" "\<forall>c\<in>set ws3. isWhiteSpace c" "0x29 \<notin> set params"
    "\<forall>c\<in>set ws4. isWhiteSpace c" "\<forall>c\<in>set ws5. isWhiteSpace c" "b \<noteq> []" "0x3B \<notin> set b"
    unfolding arrowAssignment_def by blast
  let ?v5 = "ws5 @ b @ r"
  let ?v4 = "js ''=>'' @ ?v5"
  let ?v3 = "js ''('' @ params @ js '')'' @ ws4 @ ?v4"
  let ?v2 = "js ''='' @ ws3 @ ?v3"
  let ?v1 = "ws1 @ n @ ws2 @ ?v2"
  have 0: "keywordAt (kw @ ?v1) = Some ?v1"
    using h(2) by (rule keywordAt_complete)
  have 1: "nameAfter ?v1 = Some (n, ?v2)"
    using h(3-7) by (intro nameAfter_complete) (simp_all add: paren_units not_space_word)
  have "?v3 = [] \<or> \<not> isWhiteSpace (hd ?v3)" by (simp add: paren_units not_space_word)
  from while_stop [OF h(8) this] have 2: "dropWhile isWhiteSpace (ws3 @ ?v3) = ?v3" by simp
  have 3: "parametersAt ?v3 = Some ?v4"
    using h(9,10) by (intro parametersAt_complete) (simp_all add: paren_units not_space_word)
  have 4: "arrowBodyAt ?v5 = Some (b, r)"
    using h(11,12,13) assms(2,3) by (rule arrowBodyAt_complete)
  show ?thesis
    unfolding arrowAt_def h(1) by (simp add: 0 1 2 3 4)
qed

lemma arrowAt_sound:
  assumes "arrowAt xs = Some ((n, b), r)"
  shows "\<exists>d. xs = d @ r \<and> arrowAssignment n b d \<and> (r = [] \<or> hd r = 0x3B) \<and>
     (\<not> isWhiteSpace (hd b) \<or> length b = 1)"
proof -
  from assms obtain t1 t2 t3 t4 t5 where h: "keywordAt xs = Some t1" "nameAfter t1 = Some (n, t2)"
    "t2 = js ''='' @ t3" "parametersAt (dropWhile isWhiteSpace t3) = Some t4" "t4 = js ''=>'' @ t5"
    "arrowBodyAt t5 = Some (b, r)"
    by (auto simp: arrowAt_def bind_eq_Some_conv afterLiteral_Some)
  from keywordAt_sound [OF h(1)] obtain kw where k: "xs = kw @ t1"
    "kw = js ''const'' \<or> kw = js ''let'' \<or> kw = js ''var''" by blast
  from nameAfter_sound [OF h(2)] obtain ws1 ws2 where n: "t1 = ws1 @ n @ ws2 @ t2" "ws1 \<noteq> []"
    "\<forall>c\<in>set ws1. isWhiteSpace c" "n \<noteq> []" "\<forall>c\<in>set n. isWordChar c" "\<forall>c\<in>set ws2. isWhiteSpace c"
    by blast
  let ?ws3 = "takeWhile isWhiteSpace t3"
  have t3: "t3 = ?ws3 @ dropWhile isWhiteSpace t3" by simp
  have w3: "\<forall>c\<in>set ?ws3. isWhiteSpace c" by (auto dest: set_takeWhileD)
  from parametersAt_sound [OF h(4)] obtain params ws4 where p:
    "dropWhile isWhiteSpace t3 = js ''('' @ params @ js '')'' @ ws4 @ t4" "0x29 \<notin> set params"
    "\<forall>c\<in>set ws4. isWhiteSpace c"
    by blast
  from arrowBodyAt_sound [OF h(6)] obtain ws5 where b: "t5 = ws5 @ b @ r" "\<forall>c\<in>set ws5. isWhiteSpace c"
    "b \<noteq> []" "0x3B \<notin> set b" "r = [] \<or> hd r = 0x3B" "\<not> isWhiteSpace (hd b) \<or> length b = 1"
    by blast
  let ?d = "kw @ ws1 @ n @ ws2 @ js ''='' @ ?ws3 @ js ''('' @ params @ js '')'' @ ws4 @ js ''=>'' @ ws5 @ b"
  have "t3 = ?ws3 @ js ''('' @ params @ js '')'' @ ws4 @ js ''=>'' @ ws5 @ b @ r"
    using t3 unfolding p(1) h(5) b(1) by simp
  then have "xs = ?d @ r" unfolding k(1) n(1) h(3) by simp
  moreover have "arrowAssignment n b ?d"
    unfolding arrowAssignment_def using k(2) n(2-6) w3 p(2,3) b(2,3,4) by blast
  ultimately show ?thesis using b(5,6) by blast
qed

lemma starGreedy_self: "(p, xs) \<in> set (starGreedy k p xs)"
  by (cases xs) auto

lemma first_after_star:
  assumes "concat (map f (map (\<lambda>(q, ys). MState q ys cs) (starGreedy k p xs))) = S # Ss"
  shows "\<exists>q ys Ts. f (MState q ys cs) = S # Ts \<and>
     (ys = dropWhile (inClass k) xs \<or>
      ys \<noteq> [] \<and> inClass k (hd ys) \<and> f (MState (Some (hd ys)) (tl ys) cs) = [])"
  using assms
proof (induction xs arbitrary: p Ss)
  case Nil
  then show ?case by auto
next
  case (Cons x xs)
  note IH = Cons.IH
  show ?case
  proof (cases "inClass k x")
    case False
    with Cons.prems show ?thesis by auto
  next
    case True
    let ?L = "concat (map f (map (\<lambda>(q, ys). MState q ys cs) (starGreedy k (Some x) xs)))"
    from True Cons.prems have split: "?L @ f (MState p (x # xs) cs) = S # Ss" by simp
    show ?thesis
    proof (cases ?L)
      case Nil
      then have "f (MState (Some x) xs cs) = []"
        using starGreedy_self [of "Some x" xs k] by auto
      moreover from split have "[] @ f (MState p (x # xs) cs) = S # Ss" by (simp only: Nil)
      then have "f (MState p (x # xs) cs) = S # Ss" by simp
      ultimately have "f (MState p (x # xs) cs) = S # Ss \<and>
         (x # xs \<noteq> [] \<and> inClass k (hd (x # xs)) \<and> f (MState (Some (hd (x # xs))) (tl (x # xs)) cs) = [])"
        using True by simp
      then show ?thesis by blast
    next
      case (Cons T Ts)
      with split have "?L = S # Ts" by simp
      from IH [OF this] True show ?thesis by auto
    qed
  qed
qed

lemma take_takeWhile: "take (length xs - length (dropWhile P xs)) xs = takeWhile P xs"
proof -
  have "length xs = length (takeWhile P xs) + length (dropWhile P xs)"
    by (simp add: length_append [symmetric] del: length_append)
  then have "length xs - length (dropWhile P xs) = length (takeWhile P xs)" by simp
  then show ?thesis
    by (metis append_eq_conv_conj takeWhile_dropWhile_id)
qed

lemma group_plus_first:
  assumes "rmatch (Group n (Plus k)) T = S # Ts"
  shows "\<exists>y ys. rest T = y # ys \<and> inClass k y \<and>
     caps S = (n, y # takeWhile (inClass k) ys) # caps T"
proof -
  from assms obtain S' Ts' where p: "rmatch (Plus k) T = S' # Ts'"
    and c: "caps S = (n, take (length (rest T) - length (rest S')) (rest T)) # caps S'"
    by (cases "rmatch (Plus k) T") auto
  from p obtain x xs where T: "rest T = x # xs" "inClass k x"
    and s: "rmatch (Star k) (MState (Some x) xs (caps T)) = S' # Ts'"
    by (cases "rest T") (auto simp: Plus_def split: if_splits)
  obtain q ys qs where g: "starGreedy k (Some x) xs = (q, ys) # qs" and "ys = dropWhile (inClass k) xs"
    using starGreedy_hd [of k "Some x" xs] by (cases "starGreedy k (Some x) xs") auto
  with s have r: "rest S' = dropWhile (inClass k) xs" "caps S' = caps T" by auto
  have "length (dropWhile (inClass k) xs) \<le> length xs" by (rule length_dropWhile_le)
  then have "length (x # xs) - length (dropWhile (inClass k) xs)
      = Suc (length xs - length (dropWhile (inClass k) xs))" by simp
  then have "take (length (rest T) - length (rest S')) (rest T) = x # takeWhile (inClass k) xs"
    unfolding T(1) r(1) by (simp add: take_takeWhile)
  with c r(2) T show ?thesis by simp
qed

lemma group_plus_none:
  assumes "rmatch (Group n (Plus k)) (MState q ys cs) = []"
  shows "ys = [] \<or> \<not> inClass k (hd ys)"
proof (cases ys)
  case Nil
  then show ?thesis by simp
next
  case (Cons y ys')
  show ?thesis
  proof (cases "inClass k y")
    case False
    with Cons show ?thesis by simp
  next
    case True
    from starGreedy_hd [of k "Some y" ys'] have "starGreedy k (Some y) ys' \<noteq> []" by simp
    with True Cons assms show ?thesis by (simp add: Plus_def)
  qed
qed

lemma first_Seq_SeqE:
  assumes "rmatch (Seq a (Seq b c)) s = S # Ss"
  obtains T Ts where "rmatch (Seq b c) T = S # Ts"
  using assms by (rule first_SeqE)

lemma arrow_body_first:
  assumes "rmatch (Seq (Star Space) (Group 2 (Plus (Except 0x3B)))) T0 = S # Ss"
  shows "\<exists>b cs. caps S = (2, b) # cs \<and> (\<not> isWhiteSpace (hd b) \<or> length b = 1)"
proof -
  let ?G = "Group 2 (Plus (Except 0x3B))"
  from assms have "concat (map (rmatch ?G)
      (map (\<lambda>(q, ys). MState q ys (caps T0)) (starGreedy Space (before T0) (rest T0)))) = S # Ss"
    by simp
  from first_after_star [OF this] obtain q ys Ts where f: "rmatch ?G (MState q ys (caps T0)) = S # Ts"
    and d: "ys = dropWhile (inClass Space) (rest T0) \<or>
      ys \<noteq> [] \<and> inClass Space (hd ys) \<and> rmatch ?G (MState (Some (hd ys)) (tl ys) (caps T0)) = []"
    by blast
  from group_plus_first [OF f] obtain y ys' where y: "ys = y # ys'"
    "caps S = (2, y # takeWhile (inClass (Except 0x3B)) ys') # caps T0"
    by auto
  from d show ?thesis
  proof
    assume "ys = dropWhile (inClass Space) (rest T0)"
    with y(1) hd_dropWhile [of "inClass Space" "rest T0"] have "\<not> isWhiteSpace y"
      by auto
    with y(2) show ?thesis by simp
  next
    assume "ys \<noteq> [] \<and> inClass Space (hd ys) \<and> rmatch ?G (MState (Some (hd ys)) (tl ys) (caps T0)) = []"
    with y(1) have "rmatch ?G (MState (Some y) ys' (caps T0)) = []" by simp
    from group_plus_none [OF this] have "takeWhile (inClass (Except 0x3B)) ys' = []"
      by (cases ys') auto
    with y(2) show ?thesis by simp
  qed
qed

lemma execAt_arrow_body:
  assumes "execAt arrowRegex p xs = Some S"
  shows "\<exists>b cs. caps S = (2, b) # cs \<and> (\<not> isWhiteSpace (hd b) \<or> length b = 1)"
proof -
  from assms obtain Ss where "rmatch arrowRegex (MState p xs []) = S # Ss"
    by (auto simp: execAt_def split: list.splits)
  then have "\<exists>T Ts. rmatch (Seq (Star Space) (Group 2 (Plus (Except 0x3B)))) T = S # Ts"
    unfolding arrowRegex_def seqs.simps
    by (elim first_Seq_SeqE) blast
  then show ?thesis using arrow_body_first by blast
qed

lemma execAt_arrow:
  assumes "execAt arrowRegex p xs = Some m"
  shows "\<exists>n b. caps m = [(2, b), (1, n)] \<and> arrowAt xs = Some ((n, b), rest m)"
proof -
  from execAt_rest [OF assms] obtain w where w: "xs = w @ rest m" "sem arrowRegex p w (rest m) (caps m)"
    by blast
  from w(2) obtain n b where a: "arrowAssignment n b w" "caps m = [(2, b), (1, n)]"
    unfolding sem_arrow by blast
  from execAt_arrow_body [OF assms] a(2) have "\<not> isWhiteSpace (hd b) \<or> length b = 1" by auto
  from arrowAt_complete [OF a(1) execAt_arrow_maximal [OF assms] this] w(1) a(2) show ?thesis by simp
qed

lemma arrowAt_exec:
  assumes "arrowAt xs = Some z"
  shows "execAt arrowRegex p xs \<noteq> None"
proof -
  obtain n b r where z: "z = ((n, b), r)" by (cases z) auto
  from arrowAt_sound [OF assms [unfolded z]] obtain d where "xs = d @ r" "arrowAssignment n b d"
    by blast
  then have "xs = d @ r \<and> sem arrowRegex p d r [(2, b), (1, n)]"
    unfolding sem_arrow by blast
  then show ?thesis unfolding execAt_sem by blast
qed

lemma arrowAt_shorter:
  assumes "arrowAt xs = Some (z, r)"
  shows "length r < length xs"
proof -
  obtain n b where z: "z = (n, b)" by (cases z) auto
  from arrowAt_sound [OF assms [unfolded z]] obtain d where "xs = d @ r" "arrowAssignment n b d"
    by blast
  moreover from this(2) have "d \<noteq> []" unfolding arrowAssignment_def by (auto simp: js_def)
  ultimately show ?thesis by simp
qed

lemma scanArrows_matches:
  "map (\<lambda>m. (capture m 1, capture m 2)) (matchAll arrowRegex c) = scanArrows c"
  unfolding matchAll_def scanArrows_def
proof (rule scan_matches)
  show "\<exists>n b. caps m = [(2, b), (1, n)] \<and> arrowAt xs = Some ((n, b), rest m)"
    if "execAt arrowRegex p xs = Some m" for p xs m
    using that by (rule execAt_arrow)
  show "execAt arrowRegex p xs \<noteq> None" if "arrowAt xs = Some z" for p xs z
    using that by (rule arrowAt_exec)
  show "length t < length xs" if "arrowAt xs = Some (z, t)" for xs z t
    using that by (rule arrowAt_shorter)
qed

lemma extracted_matches:
  "extracted c = map (\<lambda>m. (capture m 1, capture m 2)) (matchAll functionRegex c @ matchAll arrowRegex c)"
  unfolding extracted_def map_append scanFunctions_matches scanArrows_matches ..

lemma functionBodies_map_of: "map_of (functionBodies c) = map_of (rev (extracted c))"
proof -
  have "map_of (functionBodies c)
      = map_of (rev (map (\<lambda>m. (capture m 1, capture m 2)) (matchAll arrowRegex c)) @
                setAll [] (matchAll functionRegex c))"
    by (simp add: functionBodies_def setAll_map_of)
  also have "\<dots> = map_of (setAll [] (matchAll functionRegex c))
      ++ map_of (rev (map (\<lambda>m. (capture m 1, capture m 2)) (matchAll arrowRegex c)))"
    by (rule map_of_append)
  also have "map_of (setAll [] (matchAll functionRegex c))
      = map_of (rev (map (\<lambda>m. (capture m 1, capture m 2)) (matchAll functionRegex c)))"
    by (simp add: setAll_map_of)
  also have "map_of (rev (map (\<lambda>m. (capture m 1, capture m 2)) (matchAll functionRegex c)))
      ++ map_of (rev (map (\<lambda>m. (capture m 1, capture m 2)) (matchAll arrowRegex c)))
      = map_of (rev (map (\<lambda>m. (capture m 1, capture m 2)) (matchAll arrowRegex c)) @
                rev (map (\<lambda>m. (capture m 1, capture m 2)) (matchAll functionRegex c)))"
    by (rule map_of_append [symmetric])
  finally show ?thesis by (simp add: extracted_matches)
qed

lemma functionBodies_set:
  "(n, b) \<in> set (functionBodies c) \<longleftrightarrow> map_of (rev (extracted c)) n = Some b"
proof -
  have "distinct (map fst (functionBodies c))"
    by (simp add: functionBodies_def setAll_distinct)
  then have "(n, b) \<in> set (functionBodies c) \<longleftrightarrow> map_of (functionBodies c) n = Some b"
    by simp
  then show ?thesis by (simp add: functionBodies_map_of)
qed

lemma checkBodies_Inr:
  "checkBodies bodies = Inr () \<longleftrightarrow> (\<forall>(n, b)\<in>set bodies. \<not> regexTest (callPattern n) b)"
  by (induction bodies rule: checkBodies.induct) auto

lemma checkBodies_Inl:
  "checkBodies bodies = Inl e \<Longrightarrow>
   \<exists>n b. e = SelfRecursion n \<and> (n, b) \<in> set bodies \<and> regexTest (callPattern n) b"
  by (induction bodies rule: checkBodies.induct) (auto split: if_splits)

lemma extracted_shape:
  assumes "(n, b) \<in> set (extracted c)"
  shows "\<exists>pre text rs. c = pre @ text @ rs \<and> (functionDeclaration n b text \<or> arrowAssignment n b text)"
proof -
  from assms obtain m where m: "m \<in> set (matchAll functionRegex c) \<or> m \<in> set (matchAll arrowRegex c)"
    "n = capture m 1" "b = capture m 2"
    by (auto simp: extracted_matches)
  from m(1) show ?thesis
  proof
    assume "m \<in> set (matchAll functionRegex c)"
    from matchAll_sem [OF this] obtain pre rs where
      h: "c = pre @ matched m @ rs" "sem functionRegex (beforeOf None pre) (matched m) rs (groups m)"
      by blast
    from h(2) obtain name body where "functionDeclaration name body (matched m)"
      "groups m = [(2, body), (1, name)]"
      unfolding sem_function by blast
    with m(2,3) have "functionDeclaration n b (matched m)"
      by (simp add: capture_def)
    with h(1) show ?thesis by blast
  next
    assume "m \<in> set (matchAll arrowRegex c)"
    from matchAll_sem [OF this] obtain pre rs where
      h: "c = pre @ matched m @ rs" "sem arrowRegex (beforeOf None pre) (matched m) rs (groups m)"
      by blast
    from h(2) obtain name body where "arrowAssignment name body (matched m)"
      "groups m = [(2, body), (1, name)]"
      unfolding sem_arrow by blast
    with m(2,3) have "arrowAssignment n b (matched m)"
      by (simp add: capture_def)
    with h(1) show ?thesis by blast
  qed
qed

lemma extracted_name:
  assumes "(n, b) \<in> set (extracted c)"
  shows "n \<noteq> [] \<and> isWordChar (hd n)"
proof -
  from extracted_shape [OF assms] obtain d where
    "functionDeclaration n b d \<or> arrowAssignment n b d" by blast
  then have "n \<noteq> [] \<and> (\<forall>x\<in>set n. isWordChar x)"
    unfolding functionDeclaration_def arrowAssignment_def by blast
  then show ?thesis by (cases n) auto
qed

lemma extracted_body_sublist:
  assumes "(n, b) \<in> set (extracted c)"
  shows "sublist b c"
proof -
  from extracted_shape [OF assms] obtain pre d rs where
    h: "c = pre @ d @ rs" "functionDeclaration n b d \<or> arrowAssignment n b d" by blast
  from h(2) have "\<exists>u v. d = u @ b @ v"
  proof
    assume "functionDeclaration n b d"
    then obtain ws1 ws2 params ws3 where
      "d = (js ''function'' @ ws1 @ n @ ws2 @ js ''('' @ params @ js '')'' @ ws3 @ js ''{'') @ b @ js ''}''"
      unfolding functionDeclaration_def by auto
    then show ?thesis by blast
  next
    assume "arrowAssignment n b d"
    then obtain kw ws1 ws2 ws3 params ws4 ws5 where
      "d = (kw @ ws1 @ n @ ws2 @ js ''='' @ ws3 @ js ''('' @ params @ js '')'' @ ws4 @ js ''=>'' @ ws5) @ b @ []"
      unfolding arrowAssignment_def by auto
    then show ?thesis by blast
  qed
  then obtain u v where "d = u @ b @ v" by blast
  with h(1) have "c = (pre @ u) @ b @ (v @ rs)" by simp
  then show ?thesis unfolding sublist_def by blast
qed

lemma recursionTest_calls:
  "(recursionTest c = Inr () \<longleftrightarrow>
      \<not> (\<exists>n b. map_of (rev (extracted c)) n = Some b \<and> callOf n b)) \<and>
   ((\<exists>n. recursionTest c = Inl (SelfRecursion n)) \<longleftrightarrow>
      (\<exists>n b. map_of (rev (extracted c)) n = Some b \<and> callOf n b)) \<and>
   (\<forall>e. recursionTest c = Inl e \<longrightarrow>
      (\<exists>n b. e = SelfRecursion n \<and> map_of (rev (extracted c)) n = Some b \<and> callOf n b))"
proof -
  have call: "regexTest (callPattern n) b \<longleftrightarrow> callOf n b"
    if "map_of (rev (extracted c)) n = Some b" for n b
  proof -
    from that have "(n, b) \<in> set (extracted c)"
      using map_of_SomeD by fastforce
    from extracted_name [OF this] show ?thesis
      by (simp add: regexTest_callPattern)
  qed
  have "recursionTest c = Inr () \<longleftrightarrow>
      (\<forall>n b. (n, b) \<in> set (functionBodies c) \<longrightarrow> \<not> regexTest (callPattern n) b)"
    unfolding recursionTest_def checkBodies_Inr by auto
  also have "\<dots> \<longleftrightarrow> (\<forall>n b. map_of (rev (extracted c)) n = Some b \<longrightarrow> \<not> callOf n b)"
    unfolding functionBodies_set using call by blast
  finally have ok: "recursionTest c = Inr () \<longleftrightarrow>
      \<not> (\<exists>n b. map_of (rev (extracted c)) n = Some b \<and> callOf n b)"
    by blast
  have bad: "\<exists>n b. e = SelfRecursion n \<and> map_of (rev (extracted c)) n = Some b \<and> callOf n b"
    if "recursionTest c = Inl e" for e
    using checkBodies_Inl [OF that [unfolded recursionTest_def]] call
    by (auto simp: functionBodies_set)
  have "(\<exists>n. recursionTest c = Inl (SelfRecursion n)) \<longleftrightarrow>
      (\<exists>n b. map_of (rev (extracted c)) n = Some b \<and> callOf n b)"
  proof
    assume "\<exists>n. recursionTest c = Inl (SelfRecursion n)"
    then show "\<exists>n b. map_of (rev (extracted c)) n = Some b \<and> callOf n b"
      using bad by blast
  next
    assume "\<exists>n b. map_of (rev (extracted c)) n = Some b \<and> callOf n b"
    with ok have "recursionTest c \<noteq> Inr ()" by simp
    then obtain e where "recursionTest c = Inl e"
      by (cases "recursionTest c") auto
    with bad show "\<exists>n. recursionTest c = Inl (SelfRecursion n)" by blast
  qed
  with ok bad show ?thesis by blast
qed

lemma map_of_rev_last:
  "map_of (rev zs) n = Some b \<longleftrightarrow> (\<exists>xs ys. zs = xs @ (n, b) # ys \<and> n \<notin> fst ` set ys)"
proof (induction zs rule: rev_induct)
  case Nil
  show ?case by simp
next
  case (snoc z zs)
  obtain k v where z: "z = (k, v)" by (cases z)
  show ?case
  proof (cases "n = k")
    case True
    have "(\<exists>xs ys. zs @ [z] = xs @ (n, b) # ys \<and> n \<notin> fst ` set ys) \<longleftrightarrow> v = b"
    proof
      assume "\<exists>xs ys. zs @ [z] = xs @ (n, b) # ys \<and> n \<notin> fst ` set ys"
      then obtain xs ys where h: "zs @ [z] = xs @ (n, b) # ys" "n \<notin> fst ` set ys" by blast
      show "v = b"
      proof (cases ys rule: rev_cases)
        case Nil
        with h z show ?thesis by simp
      next
        case (snoc ys' y)
        with h have "z = y" "y \<in> set ys" by simp_all
        with h(2) z True show ?thesis by force
      qed
    next
      assume "v = b"
      with z True have "zs @ [z] = zs @ (n, b) # [] \<and> n \<notin> fst ` set []" by simp
      then show "\<exists>xs ys. zs @ [z] = xs @ (n, b) # ys \<and> n \<notin> fst ` set ys" by blast
    qed
    with z True show ?thesis by simp
  next
    case False
    have "(\<exists>xs ys. zs @ [z] = xs @ (n, b) # ys \<and> n \<notin> fst ` set ys) \<longleftrightarrow>
          (\<exists>xs ys. zs = xs @ (n, b) # ys \<and> n \<notin> fst ` set ys)"
    proof
      assume "\<exists>xs ys. zs @ [z] = xs @ (n, b) # ys \<and> n \<notin> fst ` set ys"
      then obtain xs ys where h: "zs @ [z] = xs @ (n, b) # ys" "n \<notin> fst ` set ys" by blast
      show "\<exists>xs ys. zs = xs @ (n, b) # ys \<and> n \<notin> fst ` set ys"
      proof (cases ys rule: rev_cases)
        case Nil
        with h z False show ?thesis by simp
      next
        case (snoc ys' y)
        with h have "zs = xs @ (n, b) # ys' \<and> n \<notin> fst ` set ys'" by simp
        then show ?thesis by blast
      qed
    next
      assume "\<exists>xs ys. zs = xs @ (n, b) # ys \<and> n \<notin> fst ` set ys"
      then obtain xs ys where "zs = xs @ (n, b) # ys" "n \<notin> fst ` set ys" by blast
      with z False have "zs @ [z] = xs @ (n, b) # (ys @ [z]) \<and> n \<notin> fst ` set (ys @ [z])" by simp
      then show "\<exists>xs ys. zs @ [z] = xs @ (n, b) # ys \<and> n \<notin> fst ` set ys" by blast
    qed
    with z False snoc show ?thesis by simp
  qed
qed

lemma recordedBody_last:
  "recordedBody c n = Some b \<longleftrightarrow>
     (\<exists>xs ys. extracted c = xs @ (n, b) # ys \<and> n \<notin> fst ` set ys)"
  by (simp add: recordedBody_def map_of_rev_last)

lemma regexTest_parenAfter:
  "regexTest (seqs [Lit lit, Star Space, Lit (js ''('')]) text \<longleftrightarrow> parenAfter lit text"
proof -
  have "sem (seqs [Lit lit, Star Space, Lit (js ''('')]) p w post cs \<longleftrightarrow>
     (\<exists>ws. w = lit @ ws @ js ''('' \<and> (\<forall>c\<in>set ws. isWhiteSpace c)) \<and> cs = []" for p w post cs
    by auto
  then have "regexTest (seqs [Lit lit, Star Space, Lit (js ''('')]) text \<longleftrightarrow>
     (\<exists>pre w post. text = pre @ w @ post \<and>
        (\<exists>ws. w = lit @ ws @ js ''('' \<and> (\<forall>c\<in>set ws. isWhiteSpace c)))"
    by (simp add: regexTest_sem)
  also have "\<dots> \<longleftrightarrow> (\<exists>pre ws post. text = pre @ (lit @ ws @ js ''('') @ post \<and>
        (\<forall>c\<in>set ws. isWhiteSpace c))"
    by blast
  also have "\<dots> \<longleftrightarrow> parenAfter lit text"
    by (simp add: parenAfter_def)
  finally show ?thesis .
qed

lemma no_definitions:
  assumes "\<not> sublist (js ''function'') c" "\<not> parenAfter (js ''='') c"
  shows "extracted c = []"
proof (rule ccontr)
  assume "extracted c \<noteq> []"
  then obtain n b where "(n, b) \<in> set (extracted c)"
    by (cases "extracted c") auto
  from extracted_shape [OF this] obtain pre d rs where
    h: "c = pre @ d @ rs" "functionDeclaration n b d \<or> arrowAssignment n b d" by blast
  from h(2) show False
  proof
    assume "functionDeclaration n b d"
    then obtain v where "d = js ''function'' @ v"
      unfolding functionDeclaration_def by blast
    with h(1) have "c = pre @ js ''function'' @ (v @ rs)" by simp
    then have "sublist (js ''function'') c" unfolding sublist_def by blast
    with assms(1) show False by simp
  next
    assume "arrowAssignment n b d"
    then obtain u ws3 v where "d = u @ js ''='' @ ws3 @ js ''('' @ v" "\<forall>x\<in>set ws3. isWhiteSpace x"
      unfolding arrowAssignment_def
      by (metis append.assoc)
    with h(1) have "c = (pre @ u) @ js ''='' @ ws3 @ js ''('' @ (v @ rs) \<and> (\<forall>x\<in>set ws3. isWhiteSpace x)"
      by simp
    then have "parenAfter (js ''='') c" unfolding parenAfter_def by blast
    with assms(2) show False by simp
  qed
qed

lemma split_unique:
  assumes "\<forall>c\<in>set u. P c" "\<forall>c\<in>set u'. P c" "u @ x = u' @ x'"
    "x = [] \<or> \<not> P (hd x)" "x' = [] \<or> \<not> P (hd x')"
  shows "u = u' \<and> x = x'"
  using assms
proof (induction u arbitrary: u')
  case Nil
  then show ?case by (cases u') auto
next
  case (Cons a u)
  show ?case
  proof (cases u')
    case Nil
    with Cons.prems show ?thesis by auto
  next
    case (Cons a' u'')
    with Cons.prems have "a = a'" "u @ x = u'' @ x'" "\<forall>c\<in>set u. P c" "\<forall>c\<in>set u''. P c"
      by auto
    with Cons.IH [of u''] Cons.prems(4,5) have "u = u'' \<and> x = x'" by blast
    with \<open>a = a'\<close> Cons show ?thesis by simp
  qed
qed

lemma keyword_unique:
  assumes "kw = js ''const'' \<or> kw = js ''let'' \<or> kw = js ''var''"
    "kw' = js ''const'' \<or> kw' = js ''let'' \<or> kw' = js ''var''"
    "kw @ x = kw' @ x'"
  shows "kw = kw' \<and> x = x'"
  using assms by (auto simp: js_def)

lemma arrowAssignment_head:
  assumes "arrowAssignment n b w"
  shows "\<exists>kw v1 v2 v3 v4. w = kw @ v1 @ n @ v2 @ js ''='' @ v3 @ js ''('' @ v4 \<and>
     (kw = js ''const'' \<or> kw = js ''let'' \<or> kw = js ''var'') \<and>
     (\<forall>c\<in>set v1. isWhiteSpace c) \<and> n \<noteq> [] \<and> (\<forall>c\<in>set n. isWordChar c) \<and>
     (\<forall>c\<in>set v2. isWhiteSpace c) \<and> (\<forall>c\<in>set v3. isWhiteSpace c)"
proof -
  from assms obtain kw ws1 ws2 ws3 params ws4 ws5 where
    "w = kw @ ws1 @ n @ ws2 @ js ''='' @ ws3 @ js ''('' @ (params @ js '')'' @ ws4 @ js ''=>'' @ ws5 @ b)"
    "kw = js ''const'' \<or> kw = js ''let'' \<or> kw = js ''var''"
    "\<forall>c\<in>set ws1. isWhiteSpace c" "n \<noteq> []" "\<forall>c\<in>set n. isWordChar c"
    "\<forall>c\<in>set ws2. isWhiteSpace c" "\<forall>c\<in>set ws3. isWhiteSpace c"
    unfolding arrowAssignment_def by auto
  then show ?thesis by blast
qed

lemma arrow_needs_parenthesis:
  assumes kw: "kw = js ''const'' \<or> kw = js ''let'' \<or> kw = js ''var''"
    and ws1: "\<forall>c\<in>set ws1. isWhiteSpace c"
    and name: "name \<noteq> []" "\<forall>c\<in>set name. isWordChar c"
    and ws2: "\<forall>c\<in>set ws2. isWhiteSpace c"
    and ws3: "\<forall>c\<in>set ws3. isWhiteSpace c"
    and x: "\<not> isWhiteSpace x" "x \<noteq> 0x28"
  shows "execAt arrowRegex p (kw @ ws1 @ name @ ws2 @ js ''='' @ ws3 @ x # xs) = None"
proof (rule ccontr)
  assume "execAt arrowRegex p (kw @ ws1 @ name @ ws2 @ js ''='' @ ws3 @ x # xs) \<noteq> None"
  then obtain w rs cs where
    "kw @ ws1 @ name @ ws2 @ js ''='' @ ws3 @ x # xs = w @ rs" "sem arrowRegex p w rs cs"
    unfolding execAt_sem by blast
  then obtain name' body' where
    e: "kw @ ws1 @ name @ ws2 @ js ''='' @ ws3 @ x # xs = w @ rs" and a: "arrowAssignment name' body' w"
    unfolding sem_arrow by blast
  from arrowAssignment_head [OF a] obtain kw' v1 v2 v3 v4 where
    w: "w = kw' @ v1 @ name' @ v2 @ js ''='' @ v3 @ js ''('' @ v4"
    and kw': "kw' = js ''const'' \<or> kw' = js ''let'' \<or> kw' = js ''var''"
    and v1: "\<forall>c\<in>set v1. isWhiteSpace c"
    and name': "name' \<noteq> []" "\<forall>c\<in>set name'. isWordChar c"
    and v2: "\<forall>c\<in>set v2. isWhiteSpace c"
    and v3: "\<forall>c\<in>set v3. isWhiteSpace c"
    by blast
  have eq: "js ''='' = [0x3D]" "js ''('' = [0x28]"
    by (simp_all add: js_def)
  have nw: "\<not> isWordChar 0x3D" "\<not> isWhiteSpace 0x3D" "\<not> isWhiteSpace 0x28"
    by (simp_all add: isWordChar_def isWhiteSpace_def)
  from e w have "kw @ (ws1 @ name @ ws2 @ js ''='' @ ws3 @ x # xs)
      = kw' @ (v1 @ name' @ v2 @ js ''='' @ v3 @ js ''('' @ v4 @ rs)"
    by simp
  from keyword_unique [OF kw kw' this]
  have s1: "ws1 @ (name @ ws2 @ js ''='' @ ws3 @ x # xs)
      = v1 @ (name' @ v2 @ js ''='' @ v3 @ js ''('' @ v4 @ rs)"
    by simp
  have "\<not> isWhiteSpace (hd name)" "\<not> isWhiteSpace (hd name')"
    using name name' word_not_space by (cases name; cases name'; simp)+
  then have h1: "name @ ws2 @ js ''='' @ ws3 @ x # xs = [] \<or>
      \<not> isWhiteSpace (hd (name @ ws2 @ js ''='' @ ws3 @ x # xs))"
    "name' @ v2 @ js ''='' @ v3 @ js ''('' @ v4 @ rs = [] \<or>
      \<not> isWhiteSpace (hd (name' @ v2 @ js ''='' @ v3 @ js ''('' @ v4 @ rs))"
    using name(1) name'(1) by simp_all
  from split_unique [OF ws1 v1 s1 h1]
  have s2: "name @ (ws2 @ js ''='' @ ws3 @ x # xs) = name' @ (v2 @ js ''='' @ v3 @ js ''('' @ v4 @ rs)"
    by simp
  have "\<not> isWordChar (hd (ws2 @ [0x3D]))" "\<not> isWordChar (hd (v2 @ [0x3D]))"
    using ws2 v2 word_not_space nw by (cases ws2; cases v2; auto)+
  then have h2: "ws2 @ js ''='' @ ws3 @ x # xs = [] \<or> \<not> isWordChar (hd (ws2 @ js ''='' @ ws3 @ x # xs))"
    "v2 @ js ''='' @ v3 @ js ''('' @ v4 @ rs = [] \<or>
      \<not> isWordChar (hd (v2 @ js ''='' @ v3 @ js ''('' @ v4 @ rs))"
    by (cases ws2; cases v2; simp add: eq)+
  from split_unique [OF name(2) name'(2) s2 h2]
  have s3: "ws2 @ (js ''='' @ ws3 @ x # xs) = v2 @ (js ''='' @ v3 @ js ''('' @ v4 @ rs)"
    by simp
  have h3: "js ''='' @ ws3 @ x # xs = [] \<or> \<not> isWhiteSpace (hd (js ''='' @ ws3 @ x # xs))"
    "js ''='' @ v3 @ js ''('' @ v4 @ rs = [] \<or> \<not> isWhiteSpace (hd (js ''='' @ v3 @ js ''('' @ v4 @ rs))"
    using nw by (simp_all add: eq)
  from split_unique [OF ws2 v2 s3 h3]
  have s4: "ws3 @ (x # xs) = v3 @ (js ''('' @ v4 @ rs)"
    by simp
  have h4: "x # xs = [] \<or> \<not> isWhiteSpace (hd (x # xs))"
    "js ''('' @ v4 @ rs = [] \<or> \<not> isWhiteSpace (hd (js ''('' @ v4 @ rs))"
    using x nw by (simp_all add: eq)
  from split_unique [OF ws3 v3 s4 h4]
  have "x # xs = js ''('' @ v4 @ rs"
    by simp
  with x(2) show False by (simp add: eq)
qed

lemma matchAll_arrow:
  assumes "m \<in> set (matchAll arrowRegex c)"
  shows "\<exists>pre rs. c = pre @ matched m @ rs \<and>
     arrowAssignment (capture m 1) (capture m 2) (matched m) \<and> (rs = [] \<or> hd rs = 0x3B)"
proof -
  from matchesFrom_sound [OF assms [unfolded matchAll_def]] obtain pre rs S where
    h: "c = pre @ matched m @ rs" "execAt arrowRegex (beforeOf None pre) (matched m @ rs) = Some S"
    "rest S = rs" "caps S = groups m"
    by blast
  from execAt_rest [OF h(2)] h(3,4) have "sem arrowRegex (beforeOf None pre) (matched m) rs (groups m)"
    by auto
  then obtain name body where "arrowAssignment name body (matched m)" "groups m = [(2, body), (1, name)]"
    unfolding sem_arrow by blast
  then have "arrowAssignment (capture m 1) (capture m 2) (matched m)"
    by (simp add: capture_def)
  moreover from execAt_arrow_maximal [OF h(2)] h(3) have "rs = [] \<or> hd rs = 0x3B" by simp
  ultimately show ?thesis using h(1) by blast
qed

lemma matchAll_function:
  assumes "m \<in> set (matchAll functionRegex c)"
  shows "\<exists>pre rs. c = pre @ matched m @ rs \<and>
     functionDeclaration (capture m 1) (capture m 2) (matched m)"
proof -
  from matchAll_sem [OF assms] obtain pre rs where
    h: "c = pre @ matched m @ rs" "sem functionRegex (beforeOf None pre) (matched m) rs (groups m)"
    by blast
  from h(2) obtain name body where "functionDeclaration name body (matched m)"
    "groups m = [(2, body), (1, name)]"
    unfolding sem_function by blast
  then have "functionDeclaration (capture m 1) (capture m 2) (matched m)"
    by (simp add: capture_def)
  with h(1) show ?thesis by blast
qed

lemma scanFunctions_Nil: "scanFunctions [] = []"
  by (simp add: scanFunctions_def scanWith_Nil)

lemma scanFunctions_Cons:
  "scanFunctions (x # xs) =
     (case functionAt (x # xs) of
        Some (d, behind) \<Rightarrow> d # scanFunctions behind
      | None \<Rightarrow> scanFunctions xs)"
proof (cases "functionAt (x # xs)")
  case None
  then show ?thesis by (simp add: scanFunctions_def scanWith_None)
next
  case (Some z)
  obtain d r where z: "z = (d, r)" by (cases z) auto
  from Some functionAt_shorter [of "x # xs" d r] scanWith_Some [of functionAt "x # xs" d r]
  show ?thesis by (simp add: z scanFunctions_def)
qed

lemma scanArrows_Nil: "scanArrows [] = []"
  by (simp add: scanArrows_def scanWith_Nil)

lemma scanArrows_Cons:
  "scanArrows (x # xs) =
     (case arrowAt (x # xs) of
        Some (d, behind) \<Rightarrow> d # scanArrows behind
      | None \<Rightarrow> scanArrows xs)"
proof (cases "arrowAt (x # xs)")
  case None
  then show ?thesis by (simp add: scanArrows_def scanWith_None)
next
  case (Some z)
  obtain d r where z: "z = (d, r)" by (cases z) auto
  from Some arrowAt_shorter [of "x # xs" d r] scanWith_Some [of arrowAt "x # xs" d r]
  show ?thesis by (simp add: z scanArrows_def)
qed

lemma functionAt_iff:
  "functionAt xs = Some ((n, b), r) \<longleftrightarrow> (\<exists>d. xs = d @ r \<and> functionDeclaration n b d)"
  using functionAt_sound functionAt_complete by blast

lemma arrowAt_iff:
  "arrowAt xs = Some ((n, b), r) \<longleftrightarrow>
     (\<exists>d. xs = d @ r \<and> arrowAssignment n b d \<and> (r = [] \<or> hd r = 0x3B) \<and>
          (\<not> isWhiteSpace (hd b) \<or> length b = 1))"
  using arrowAt_sound arrowAt_complete by blast

lemma scanArrows_parenAfter:
  assumes "scanArrows c \<noteq> []"
  shows "parenAfter (js ''='') c"
proof -
  from assms obtain m where m: "m \<in> set (matchAll arrowRegex c)"
    unfolding scanArrows_matches [symmetric] by (cases "matchAll arrowRegex c") auto
  from matchAll_arrow [OF m] obtain pre rs where
    h: "c = pre @ matched m @ rs" "arrowAssignment (capture m 1) (capture m 2) (matched m)" by blast
  from h(2) obtain u ws3 v where "matched m = u @ js ''='' @ ws3 @ js ''('' @ v" "\<forall>x\<in>set ws3. isWhiteSpace x"
    unfolding arrowAssignment_def
    by (metis append.assoc)
  with h(1) have "c = (pre @ u) @ js ''='' @ ws3 @ js ''('' @ (v @ rs) \<and> (\<forall>x\<in>set ws3. isWhiteSpace x)"
    by simp
  then show ?thesis unfolding parenAfter_def by blast
qed

lemma single_declaration:
  assumes "functionDeclaration n b c" "\<not> parenAfter (js ''='') c"
  shows "extracted c = [(n, b)]"
proof -
  from functionAt_complete [OF assms(1), of "[]"] have f: "functionAt c = Some ((n, b), [])" by simp
  from functionAt_shorter [OF f] have "length ([] :: jsstring) < length c" .
  from scanWith_Some [of functionAt c "(n, b)" "[]", OF f this] have "scanFunctions c = [(n, b)]"
    by (simp add: scanFunctions_def scanWith_Nil)
  moreover from assms(2) scanArrows_parenAfter have "scanArrows c = []" by blast
  ultimately show ?thesis by (simp add: extracted_def)
qed

lemma recursionTest_single:
  assumes "extracted c = [(n, b)]"
  shows "recursionTest c = (if callOf n b then Inl (SelfRecursion n) else Inr ())"
proof -
  have r: "map_of (rev (extracted c)) n' = Some b' \<longleftrightarrow> n' = n \<and> b' = b" for n' b'
    by (auto simp: assms)
  note t = recursionTest_calls [of c, unfolded r]
  show ?thesis
  proof (cases "callOf n b")
    case True
    with t have "\<exists>n'. recursionTest c = Inl (SelfRecursion n')" by blast
    then obtain n' where n': "recursionTest c = Inl (SelfRecursion n')" by blast
    with t have "n' = n" by blast
    with n' True show ?thesis by simp
  next
    case False
    with t show ?thesis by auto
  qed
qed

lemma recursionTest_distinct:
  assumes "distinct (map fst (extracted c))"
  shows "recursionTest c = Inr () \<longleftrightarrow> \<not> (\<exists>(n, b)\<in>set (extracted c). callOf n b)"
proof -
  from assms have "distinct (map fst (rev (extracted c)))" by (simp add: rev_map [symmetric])
  then have "map_of (rev (extracted c)) n = Some b \<longleftrightarrow> (n, b) \<in> set (extracted c)" for n b
    by simp
  with recursionTest_calls [of c] show ?thesis by auto
qed

lemma callOf_in_comment:
  assumes "callOf n v"
  shows "callOf n (u @ js ''/*'' @ v @ w)"
proof -
  from assms obtain pre ws post where h: "v = pre @ n @ ws @ js ''('' @ post"
    "\<forall>c\<in>set ws. isWhiteSpace c" "\<not> isWordAt (beforeOf None pre)"
    unfolding callOf_def by blast
  have "\<not> isWordAt (beforeOf None (u @ js ''/*'' @ pre))"
    using h(3) by (cases "pre = []") (simp_all add: beforeOf_def isWordAt_def isWordChar_def js_def)
  moreover have "u @ js ''/*'' @ v @ w = (u @ js ''/*'' @ pre) @ n @ ws @ js ''('' @ (post @ w)"
    by (simp add: h(1))
  ultimately show ?thesis unfolding callOf_def using h(2) by blast
qed

lemma arrowAt_needs_parenthesis:
  assumes "kw = js ''const'' \<or> kw = js ''let'' \<or> kw = js ''var''"
    "\<forall>c\<in>set ws1. isWhiteSpace c" "name \<noteq> []" "\<forall>c\<in>set name. isWordChar c"
    "\<forall>c\<in>set ws2. isWhiteSpace c" "\<forall>c\<in>set ws3. isWhiteSpace c" "\<not> isWhiteSpace x" "x \<noteq> 0x28"
  shows "arrowAt (kw @ ws1 @ name @ ws2 @ js ''='' @ ws3 @ x # xs) = None"
proof -
  have "execAt arrowRegex None (kw @ ws1 @ name @ ws2 @ js ''='' @ ws3 @ x # xs) = None"
    using assms by (rule arrow_needs_parenthesis)
  with arrowAt_exec [of "kw @ ws1 @ name @ ws2 @ js ''='' @ ws3 @ x # xs" _ None] show ?thesis
    by (cases "arrowAt (kw @ ws1 @ name @ ws2 @ js ''='' @ ws3 @ x # xs)") auto
qed

section \<open>Facts about the pipeline's helpers\<close>

lemma allowed_set:
  "set ALLOWED_FILENAMES = {js ''main.js'', js ''main.cjs'', js ''main.mjs'', js ''main.ts'', js ''main.coffee''}"
  by (simp add: ALLOWED_FILENAMES_def)

lemma filterFiles_ok:
  "statErrors es = [] \<Longrightarrow> filterFiles es = Inr (regularFileNames es)"
proof (induction es rule: filterFiles.induct)
  case 1
  show ?case by simp
next
  case (2 f e es)
  then show ?case by simp
next
  case (3 f k es)
  then show ?case by (cases k) (simp_all add: isFile_def)
qed

lemma filterFiles_throws:
  "statErrors es = e # others \<Longrightarrow> filterFiles es = Inl (FileSystemError e)"
proof (induction es rule: filterFiles.induct)
  case 1
  then show ?case by simp
next
  case (2 f e' es)
  then show ?case by simp
next
  case (3 f k es)
  then show ?case by simp
qed

lemma fold_onData:
  "fold onData chunks b = \<lparr>stdout = stdout b @ stdoutText chunks, stderr = stderr b @ stderrText chunks\<rparr>"
proof (induction chunks arbitrary: b)
  case Nil
  then show ?case by (simp add: stdoutText_def stderrText_def)
next
  case (Cons c cs)
  then show ?case by (cases c) (simp_all add: stdoutText_def stderrText_def)
qed

section \<open>Facts about the dispatcher\<close>

lemma runAll_runList: "runAll w ds i = runList w (drop i ds)"
proof (induction w ds i rule: runAll.induct)
  case (1 w ds i)
  show ?case
  proof (cases "length ds \<le> i")
    case True
    then show ?thesis by (subst runAll.simps) simp
  next
    case False
    then have d: "drop i ds = ds ! i # drop (Suc i) ds"
      by (simp add: Cons_nth_drop_Suc)
    let ?dir = "readDir w (pathJoin w [cwd w, js ''src'', ds ! i])"
    show ?thesis
    proof (cases "findMainFile_interactive ?dir")
      case (Inl e)
      with False d show ?thesis by (subst runAll.simps) (simp add: Let_def)
    next
      case (Inr f)
      let ?argv = "getRunCommand_interactive f @ [pathJoin w [pathJoin w [cwd w, js ''src'', ds ! i], f]]"
      show ?thesis
      proof (cases "exitCode w ?argv = Some 0")
        case True
        have "runAll w ds (i + 1) = runList w (drop (i + 1) ds)"
          using "1.IH" [OF _ refl refl Inr refl refl refl] False True by simp
        with False d Inr True show ?thesis
          by (subst runAll.simps) (simp add: Let_def split_beta)
      next
        case nz: False
        with False d Inr show ?thesis by (subst runAll.simps) (simp add: Let_def)
      qed
    qed
  qed
qed

lemma runList_commands:
  "map Some (spawnedCommands (fst (runList w ds)))
     = map (entryCommand w) (take (length (spawnedCommands (fst (runList w ds)))) ds)"
  by (induction ds) (auto simp: entryCommand_def Let_def split: sum.splits)

lemma runList_announced: "prefix (announcedDirs (fst (runList w ds))) ds"
  by (induction ds) (auto simp: Let_def split: sum.splits)

lemma runList_orderly: "orderly w (fst (runList w ds))"
  by (induction ds) (auto simp: entryCommand_def Let_def split: sum.splits)

lemma runList_head_clean:
  "Suc 0 < length (spawnedCommands (fst (runList w (d # ds)))) \<Longrightarrow>
   length (spawnedCommands (fst (runList w (d # ds)))) = Suc (length (spawnedCommands (fst (runList w ds))))
   \<and> runsClean w d"
  by (auto simp: runsClean_def entryCommand_def Let_def split: sum.splits if_splits)

lemma runList_started_after_zero:
  "Suc i < length (spawnedCommands (fst (runList w ds))) \<Longrightarrow> runsClean w (ds ! i)"
proof (induction ds arbitrary: i)
  case Nil
  then show ?case by simp
next
  case (Cons d ds)
  from Cons.prems have "Suc 0 < length (spawnedCommands (fst (runList w (d # ds))))" by arith
  note h = runList_head_clean [OF this]
  show ?case
  proof (cases i)
    case 0
    with h show ?thesis by simp
  next
    case (Suc j)
    with Cons.prems h have "Suc j < length (spawnedCommands (fst (runList w ds)))" by simp
    then have "runsClean w (ds ! j)" by (rule Cons.IH)
    with Suc show ?thesis by simp
  qed
qed

lemma runList_clean_step:
  "runsClean w d \<Longrightarrow> entryCommand w d = Some argv \<Longrightarrow>
   runList w (d # ds) = (Announced d # Spawned argv # ChildExited (Some 0) # fst (runList w ds), snd (runList w ds))"
  by (auto simp: runsClean_def entryCommand_def Let_def split: sum.splits)

lemma runsCleanE: "runsClean w d \<Longrightarrow> \<exists>argv. entryCommand w d = Some argv \<and> exitCode w argv = Some 0"
  by (auto simp: runsClean_def split: option.splits)

lemma runList_failing_step:
  "entryCommand w d = Some argv \<Longrightarrow> exitCode w argv \<noteq> Some 0 \<Longrightarrow>
   runList w (d # ds) = ([Announced d, Spawned argv, ChildExited (exitCode w argv)], ProcessExit (exitCode w argv))"
  by (auto simp: entryCommand_def Let_def split: sum.splits)

lemma runList_refused_step:
  "entryCommand w d = None \<Longrightarrow>
   \<exists>e. runList w (d # ds) = ([Announced d, ErrorLogged e], ProcessExit (Some 1))"
  by (auto simp: entryCommand_def Let_def split: sum.splits)

lemma runList_first_failure:
  "k < length ds \<Longrightarrow> \<forall>i<k. runsClean w (ds ! i) \<Longrightarrow>
   entryCommand w (ds ! k) = Some argv \<Longrightarrow> exitCode w argv \<noteq> Some 0 \<Longrightarrow>
   snd (runList w ds) = ProcessExit (exitCode w argv) \<and>
   map Some (spawnedCommands (fst (runList w ds))) = map (entryCommand w) (take (Suc k) ds) \<and>
   announcedDirs (fst (runList w ds)) = take (Suc k) ds \<and>
   last (fst (runList w ds)) = ChildExited (exitCode w argv)"
proof (induction ds arbitrary: k)
  case Nil
  then show ?case by simp
next
  case (Cons d ds)
  show ?case
  proof (cases k)
    case 0
    with Cons.prems have "entryCommand w d = Some argv" by simp
    from runList_failing_step [OF this Cons.prems(4), of ds] this 0 show ?thesis
      by simp
  next
    case (Suc j)
    with Cons.prems have d0: "runsClean w d"
      by auto
    from runsCleanE [OF d0] obtain a where a: "entryCommand w d = Some a" by blast
    from Suc Cons.prems have "j < length ds" "\<forall>i<j. runsClean w (ds ! i)"
      "entryCommand w (ds ! j) = Some argv" "exitCode w argv \<noteq> Some 0"
      by auto
    then have IH: "snd (runList w ds) = ProcessExit (exitCode w argv) \<and>
      map Some (spawnedCommands (fst (runList w ds))) = map (entryCommand w) (take (Suc j) ds) \<and>
      announcedDirs (fst (runList w ds)) = take (Suc j) ds \<and>
      last (fst (runList w ds)) = ChildExited (exitCode w argv)"
      by (rule Cons.IH)
    then have ne: "fst (runList w ds) \<noteq> []" by auto
    with IH Suc a show ?thesis
      unfolding runList_clean_step [OF d0 a] by simp
  qed
qed

lemma runList_all_zero:
  "\<forall>d\<in>set ds. runsClean w d \<Longrightarrow>
   snd (runList w ds) = AllCompleted \<and>
   map Some (spawnedCommands (fst (runList w ds))) = map (entryCommand w) ds \<and>
   announcedDirs (fst (runList w ds)) = ds"
proof (induction ds)
  case Nil
  show ?case by simp
next
  case (Cons d ds)
  then have d0: "runsClean w d" by simp
  from runsCleanE [OF d0] obtain a where a: "entryCommand w d = Some a" by blast
  from Cons show ?case unfolding runList_clean_step [OF d0 a] by (simp add: a)
qed

lemma entryDirs_sorted: "sorted (entryDirs srcDir) \<and> set (entryDirs srcDir) = {name. (name, Directory) \<in> set srcDir}"
  by (auto simp: entryDirs_def isDirectory_def image_iff)

section \<open>Facts about the output verifier\<close>

lemma hello_units: "js ''Hello, World!'' = [72, 101, 108, 108, 111, 44, 32, 87, 111, 114, 108, 100, 33]"
  by (simp add: js_def)

lemma hello_tail: "js ''Hello, World!'' = 72 # tl (js ''Hello, World!'')" "72 \<notin> set (tl (js ''Hello, World!''))"
  by (simp_all add: hello_units)

lemma prefix_hello_head: "prefix (js ''Hello, World!'') (x # xs) \<Longrightarrow> x = 72"
  by (simp add: hello_units)

lemma occurrences_skip:
  "72 \<notin> set u \<Longrightarrow> occurrences (js ''Hello, World!'') (u @ ys) = occurrences (js ''Hello, World!'') ys"
proof (induction u)
  case Nil
  then show ?case by simp
next
  case (Cons a u)
  then have "\<not> prefix (js ''Hello, World!'') (a # u @ ys)"
    using prefix_hello_head by fastforce
  with Cons show ?case by simp
qed

lemma occurrences_hello_append:
  "occurrences (js ''Hello, World!'') (js ''Hello, World!'' @ ys) = Suc (occurrences (js ''Hello, World!'') ys)"
proof -
  have "occurrences (js ''Hello, World!'') ((72 # tl (js ''Hello, World!'')) @ ys)
      = (if prefix (js ''Hello, World!'') ((72 # tl (js ''Hello, World!'')) @ ys) then 1 else 0)
        + occurrences (js ''Hello, World!'') (tl (js ''Hello, World!'') @ ys)"
    by simp
  also have "(72 # tl (js ''Hello, World!'')) = js ''Hello, World!''"
    using hello_tail(1) by simp
  finally show ?thesis
    using occurrences_skip [OF hello_tail(2), of ys] by simp
qed

lemma hello_length: "length (js ''Hello, World!'') = 13"
  by (simp add: js_def)

lemma execAt_hello:
  "execAt helloRegex p xs =
     (if prefix (js ''Hello, World!'') xs then Some (MState (Some 33) (drop 13 xs) []) else None)"
proof -
  have "last (js ''Hello, World!'') = 33" "js ''Hello, World!'' \<noteq> []"
    by (simp_all add: hello_units)
  then show ?thesis
    by (simp add: execAt_def helloRegex_def hello_length)
qed

lemma matchesFrom_hello:
  "length (matchesFrom helloRegex p xs) = occurrences (js ''Hello, World!'') xs"
proof (induction "length xs" arbitrary: p xs rule: less_induct)
  case less
  show ?case
  proof (cases "prefix (js ''Hello, World!'') xs")
    case True
    then obtain ys where xs: "xs = js ''Hello, World!'' @ ys"
      by (auto simp: prefix_def)
    note len = hello_length
    have d: "drop 13 xs = ys" using xs len by simp
    have "length ys < length xs" using xs len by simp
    then have IH: "length (matchesFrom helloRegex (Some 33) ys) = occurrences (js ''Hello, World!'') ys"
      by (rule less)
    have "matchesFrom helloRegex p xs =
        JsMatch (take (length xs - length ys) xs) [] # matchesFrom helloRegex (Some 33) ys"
      using True d \<open>length ys < length xs\<close>
      by (subst matchesFrom.simps) (simp add: execAt_hello)
    then show ?thesis
      using IH xs occurrences_hello_append by simp
  next
    case False
    show ?thesis
    proof (cases xs)
      case Nil
      with False show ?thesis
        by (subst matchesFrom.simps) (simp add: execAt_hello)
    next
      case (Cons y ys)
      then have "length (matchesFrom helloRegex (Some y) ys) = occurrences (js ''Hello, World!'') ys"
        using less [of ys "Some y"] by simp
      with False Cons show ?thesis
        by (subst matchesFrom.simps) (simp add: execAt_hello)
    qed
  qed
qed

lemma countTest_occurrences:
  "countTest output =
     (if occurrences (js ''Hello, World!'') output = 1000000 then Inr ()
      else Inl (CountMismatch (occurrences (js ''Hello, World!'') output)))"
proof -
  have "(case stringMatch helloRegex output of Some ms \<Rightarrow> length ms | None \<Rightarrow> 0)
      = length (matchesFrom helloRegex None output)"
    by (simp add: stringMatch_def matchAll_def split: list.splits)
  then show ?thesis
    by (simp add: countTest_def EXPECTED_COUNT_def matchesFrom_hello)
qed

lemma occurrences_card:
  "occurrences w xs = card {i. i \<le> length xs \<and> prefix w (drop i xs)}"
proof (induction xs)
  case Nil
  show ?case by (cases "w = []") auto
next
  case (Cons x xs)
  let ?A = "{i. i \<le> length xs \<and> prefix w (drop i xs)}"
  let ?Z = "if prefix w (x # xs) then {0::nat} else {}"
  have split: "{i. i \<le> length (x # xs) \<and> prefix w (drop i (x # xs))} = ?Z \<union> Suc ` ?A"
  proof (rule set_eqI)
    fix i show "i \<in> {i. i \<le> length (x # xs) \<and> prefix w (drop i (x # xs))} \<longleftrightarrow> i \<in> ?Z \<union> Suc ` ?A"
      by (cases i) (auto simp: image_iff)
  qed
  have "card (?Z \<union> Suc ` ?A) = card ?Z + card (Suc ` ?A)"
    by (rule card_Un_disjoint) auto
  also have "card (Suc ` ?A) = card ?A"
    by (rule card_image) simp
  also have "card ?Z = (if prefix w (x # xs) then 1 else 0)"
    by simp
  finally show ?case using Cons split by simp
qed

lemma occurrences_lines:
  "occurrences (js ''Hello, World!'') (concat (replicate n (js ''Hello, World!'' @ [10]))) = n"
proof (induction n)
  case 0
  show ?case by (simp add: hello_units)
next
  case (Suc n)
  have "occurrences (js ''Hello, World!'') ([10] @ concat (replicate n (js ''Hello, World!'' @ [10])))
      = occurrences (js ''Hello, World!'') (concat (replicate n (js ''Hello, World!'' @ [10])))"
    by (rule occurrences_skip) simp
  with Suc show ?case
    using occurrences_hello_append [of "[10] @ concat (replicate n (js ''Hello, World!'' @ [10]))"]
    by simp
qed

lemma hello_no_overlap:
  assumes "i < j" "prefix (js ''Hello, World!'') (drop i xs)" "prefix (js ''Hello, World!'') (drop j xs)"
  shows "i + 13 \<le> j"
proof (rule ccontr)
  assume "\<not> i + 13 \<le> j"
  then obtain d where d: "j = i + d" "0 < d" "d < 13"
    using assms(1) by (metis less_imp_add_positive nat_add_left_cancel_less not_le_imp_less)
  from assms(2) obtain r where r: "drop i xs = js ''Hello, World!'' @ r"
    by (auto simp: prefix_def)
  have "drop j xs = drop d (drop i xs)" using d by (simp add: add.commute)
  also have "\<dots> = drop d (js ''Hello, World!'') @ r"
    using r d by (simp add: hello_length)
  finally have p: "prefix (js ''Hello, World!'') (drop d (js ''Hello, World!'') @ r)"
    using assms(3) by simp
  from d have dl: "d < length (js ''Hello, World!'')"
    by (simp add: hello_length)
  have e: "drop d (js ''Hello, World!'') = js ''Hello, World!'' ! d # drop (Suc d) (js ''Hello, World!'')"
    using dl by (rule Cons_nth_drop_Suc [symmetric])
  have "prefix (js ''Hello, World!'') (js ''Hello, World!'' ! d # (drop (Suc d) (js ''Hello, World!'') @ r))"
    using p by (simp only: e append_Cons)
  then have h: "js ''Hello, World!'' ! d = 72"
    by (rule prefix_hello_head)
  obtain d' where d': "d = Suc d'"
    using d by (cases d) auto
  have "js ''Hello, World!'' ! d = (72 # tl (js ''Hello, World!'')) ! d"
    using hello_tail(1) by simp
  also have "\<dots> = tl (js ''Hello, World!'') ! d'"
    by (simp only: d' nth_Cons_Suc)
  finally have "tl (js ''Hello, World!'') ! d' = 72"
    using h by simp
  moreover have "d' < length (tl (js ''Hello, World!''))"
    using dl d' by simp
  ultimately have "72 \<in> set (tl (js ''Hello, World!''))"
    by (metis nth_mem)
  then show False using hello_tail(2) by simp
qed

section \<open>The claims\<close>

subsection \<open>Directory scanner\<close>

text \<open>
  Claim C4, as amended. For every entry directory that can be listed and all of whose names
  can be examined, \<open>findMainFile\<close> returns the name of the single regular file exactly when
  the directory holds one regular file and its name is in the allow-list \<open>main.js\<close>,
  \<open>main.cjs\<close>, \<open>main.mjs\<close>, \<open>main.ts\<close>, \<open>main.coffee\<close>; with no regular file, with more
  than one, or with one whose name is outside the list, it fails with a structural error.
  A directory that cannot be listed, or that holds a name that cannot be examined, makes it
  fail with the error of the file system instead, the one of the first such name, whatever
  else the directory holds. Every failure is one of these, and the copy in
  \<open>scripts/run-interactive.js\<close> is the same function.
\<close>

theorem findMainFile_examined_directory:
  "(findMainFile dir = Inr f \<longleftrightarrow>
      (\<exists>es. dir = Listing es \<and> statErrors es = [] \<and> regularFileNames es = [f] \<and>
            f \<in> set ALLOWED_FILENAMES)) \<and>
   (statErrors es = [] \<and> regularFileNames es = [] \<longrightarrow>
      findMainFile (Listing es) = Inl NoFileInDirectory) \<and>
   (statErrors es = [] \<and> 1 < length (regularFileNames es) \<longrightarrow>
      findMainFile (Listing es) = Inl (SeveralFilesInDirectory (regularFileNames es))) \<and>
   (statErrors es = [] \<and> regularFileNames es = [g] \<and> g \<notin> set ALLOWED_FILENAMES \<longrightarrow>
      findMainFile (Listing es) = Inl (FileNameNotAllowed g)) \<and>
   findMainFile (Unreadable n) = Inl (FileSystemError n) \<and>
   (statErrors es = n # others \<longrightarrow> findMainFile (Listing es) = Inl (FileSystemError n)) \<and>
   (\<forall>e. findMainFile dir = Inl e \<longrightarrow> isStructuralError e \<or> (\<exists>m. e = FileSystemError m)) \<and>
   findMainFile_interactive dir = findMainFile dir \<and>
   set ALLOWED_FILENAMES =
     {js ''main.js'', js ''main.cjs'', js ''main.mjs'', js ''main.ts'', js ''main.coffee''}"
proof -
  have eq: "ALLOWED_FILENAMES_interactive = ALLOWED_FILENAMES"
    by (simp add: ALLOWED_FILENAMES_interactive_def ALLOWED_FILENAMES_def)
  have same: "findMainFile_interactive dir = findMainFile dir"
    unfolding findMainFile_interactive_def findMainFile_def eq by (rule refl)
  have ok: "findMainFile (Listing xs) =
      (if regularFileNames xs = [] then Inl NoFileInDirectory
       else if 1 < length (regularFileNames xs) then Inl (SeveralFilesInDirectory (regularFileNames xs))
       else if hd (regularFileNames xs) \<notin> set ALLOWED_FILENAMES
         then Inl (FileNameNotAllowed (hd (regularFileNames xs)))
       else Inr (hd (regularFileNames xs)))" if "statErrors xs = []" for xs
    using that by (simp add: findMainFile_def filterFiles_ok Let_def hd_conv_nth)
  have throws: "findMainFile (Listing xs) = Inl (FileSystemError m)" if "statErrors xs = m # ms" for xs m ms
    using that by (simp add: findMainFile_def filterFiles_throws)
  have unreadable: "findMainFile (Unreadable n) = Inl (FileSystemError n)"
    by (simp add: findMainFile_def)
  have single: "xs = [hd xs]" if "xs \<noteq> []" "\<not> 1 < length xs" for xs :: "jsstring list"
    using that by (cases xs) auto
  have c1: "findMainFile dir = Inr f \<longleftrightarrow>
      (\<exists>es. dir = Listing es \<and> statErrors es = [] \<and> regularFileNames es = [f] \<and>
            f \<in> set ALLOWED_FILENAMES)"
  proof (cases dir)
    case (Unreadable m)
    then show ?thesis by (simp add: findMainFile_def)
  next
    case (Listing xs)
    show ?thesis
    proof (cases "statErrors xs")
      case Nil
      show ?thesis unfolding Listing using Nil single [of "regularFileNames xs"]
        by (auto simp: ok [OF Nil])
    next
      case (Cons m ms)
      then show ?thesis unfolding Listing by (simp add: throws [OF Cons])
    qed
  qed
  have c7: "\<forall>e. findMainFile dir = Inl e \<longrightarrow> isStructuralError e \<or> (\<exists>m. e = FileSystemError m)"
  proof (cases dir)
    case (Unreadable m)
    then show ?thesis by (simp add: findMainFile_def)
  next
    case (Listing xs)
    show ?thesis
    proof (cases "statErrors xs")
      case Nil
      show ?thesis unfolding Listing by (auto simp: ok [OF Nil])
    next
      case (Cons m ms)
      then show ?thesis unfolding Listing by (simp add: throws [OF Cons])
    qed
  qed
  have c2: "statErrors es = [] \<and> regularFileNames es = [] \<longrightarrow>
      findMainFile (Listing es) = Inl NoFileInDirectory"
    by (simp add: ok)
  have c3: "statErrors es = [] \<and> 1 < length (regularFileNames es) \<longrightarrow>
      findMainFile (Listing es) = Inl (SeveralFilesInDirectory (regularFileNames es))"
    by (auto simp: ok)
  have c4: "statErrors es = [] \<and> regularFileNames es = [g] \<and> g \<notin> set ALLOWED_FILENAMES \<longrightarrow>
      findMainFile (Listing es) = Inl (FileNameNotAllowed g)"
    by (simp add: ok)
  have c6: "statErrors es = n # others \<longrightarrow> findMainFile (Listing es) = Inl (FileSystemError n)"
    using throws by blast
  from c1 c2 c3 c4 unreadable c6 c7 same allowed_set show ?thesis
    by (intro conjI)
qed

theorem findMainFile_examined_directory_witness:
  "findMainFile (Listing [(js ''lib'', Stats Directory), (js ''main.mjs'', Stats RegularFile)])
     = Inr (js ''main.mjs'') \<and>
   findMainFile (Listing [(js ''lib'', Stats Directory)]) = Inl NoFileInDirectory \<and>
   findMainFile (Listing [(js ''main.js'', Stats RegularFile), (js ''main.ts'', Stats RegularFile)])
     = Inl (SeveralFilesInDirectory [js ''main.js'', js ''main.ts'']) \<and>
   findMainFile (Listing [(js ''index.js'', Stats RegularFile)]) = Inl (FileNameNotAllowed (js ''index.js'')) \<and>
   findMainFile (Listing [(js ''gone'', StatThrows ENOENT), (js ''main.js'', Stats RegularFile),
                          (js ''locked'', StatThrows EACCES)])
     = Inl (FileSystemError ENOENT)"
  using findMainFile_examined_directory
      [of "Listing [(js ''lib'', Stats Directory), (js ''main.mjs'', Stats RegularFile)]" "js ''main.mjs''"
          "[(js ''lib'', Stats Directory)]" "[]" ENOENT "[]"]
    findMainFile_examined_directory
      [of "Unreadable ENOENT" "[]"
          "[(js ''main.js'', Stats RegularFile), (js ''main.ts'', Stats RegularFile)]" "[]" ENOENT "[]"]
    findMainFile_examined_directory
      [of "Unreadable ENOENT" "[]"
          "[(js ''index.js'', Stats RegularFile)]" "js ''index.js''" ENOENT "[]"]
    findMainFile_examined_directory
      [of "Unreadable ENOENT" "[]"
          "[(js ''gone'', StatThrows ENOENT), (js ''main.js'', Stats RegularFile),
                          (js ''locked'', StatThrows EACCES)]" "[]" ENOENT "[EACCES]"]
  by (simp add: ALLOWED_FILENAMES_def js_def)

text \<open>
  The claim as first stated does not hold of every entry directory: beside the one regular
  file \<open>main.js\<close>, a symbolic link to nothing makes \<open>statSync\<close> throw in the filter, and
  the error is not a structural one; likewise a directory that holds nothing but such a
  link has no file, and does not fail with a structural error either.
\<close>

theorem findMainFile_dangling_link_counterexample:
  "regularFileNames [(js ''main.js'', Stats RegularFile), (js ''link'', StatThrows ENOENT)] = [js ''main.js''] \<and>
   js ''main.js'' \<in> set ALLOWED_FILENAMES \<and>
   findMainFile (Listing [(js ''main.js'', Stats RegularFile), (js ''link'', StatThrows ENOENT)])
     = Inl (FileSystemError ENOENT) \<and>
   \<not> isStructuralError (FileSystemError ENOENT) \<and>
   regularFileNames [(js ''link'', StatThrows ENOENT)] = [] \<and>
   findMainFile (Listing [(js ''link'', StatThrows ENOENT)]) = Inl (FileSystemError ENOENT)"
  by (simp add: findMainFile_def ALLOWED_FILENAMES_def)

subsection \<open>Static rule checker: size\<close>

text \<open>
  Claim C5. The size test fails with \<open>SizeExceeded\<close> if and only if the file is longer than
  1000 bytes, and passes otherwise: a file of exactly 1000 bytes passes, one of 1001 bytes
  fails.
\<close>

theorem sizeTest_ceiling:
  "(sizeTest bytes = Inr () \<longleftrightarrow> length bytes \<le> 1000) \<and>
   (sizeTest bytes = Inl (SizeExceeded (length bytes)) \<longleftrightarrow> 1000 < length bytes) \<and>
   (length bytes = 1000 \<longrightarrow> sizeTest bytes = Inr ()) \<and>
   (length bytes = 1001 \<longrightarrow> sizeTest bytes = Inl (SizeExceeded 1001))"
  by (auto simp: sizeTest_def statSize_def MAX_FILE_SIZE_def Let_def)

theorem sizeTest_ceiling_witness:
  "sizeTest (replicate 1000 0) = Inr () \<and> sizeTest (replicate 1001 0) = Inl (SizeExceeded 1001)"
  using sizeTest_ceiling [of "replicate 1000 0"] sizeTest_ceiling [of "replicate 1001 0"]
  by simp

subsection \<open>Static rule checker: keywords\<close>

text \<open>
  Claim C2 says that the keyword test strips the comments and then fails exactly when the
  remaining text holds \<open>for (\<close>, \<open>while (\<close> or a call of \<open>forEach\<close>, and concludes that a file
  with \<open>for (\<close> outside any comment fails while the same text inside a comment passes. The
  conclusion fails on the code, because a comment is replaced by nothing and block comments
  are removed before line comments. The file \<open>else/**/for (;;){}\<close> holds a \<open>for (\<close> outside
  its one comment (the \<open>for\<close> stands behind \<open>/\<close>, so it is a word of its own in the file)
  and passes: without the comment the text reads \<open>elsefor (\<close>. The file
  \<open>//**/ for (;;){}\<close> is one line comment and fails: removing \<open>/**/\<close> first leaves
  \<open>/ for (;;){}\<close>.
\<close>

theorem keywordTest_comment_counterexample:
  "callOf (js ''for'') (js ''else/**/for (;;){}'') \<and>
   keywordTest (js ''else/**/for (;;){}'') = Inr () \<and>
   keywordTest (js ''//**/ for (;;){}'') = Inl (BannedConstruct BannedFor)"
proof -
  have "callOf (js ''for'') (js ''else/**/for (;;){}'')"
    unfolding regexTest_for [symmetric] by code_simp
  moreover have "keywordTest (js ''else/**/for (;;){}'') = Inr ()"
    by code_simp
  moreover have "keywordTest (js ''//**/ for (;;){}'') = Inl (BannedConstruct BannedFor)"
    by code_simp
  ultimately show ?thesis by blast
qed

text \<open>
  Claim C2, amended. For every file content the keyword test removes the block comments
  (going from the left, each \<open>/*\<close> that has a \<open>*/\<close> behind it, up to the first such \<open>*/\<close>) and
  then, from what is left, the line comments (each \<open>//\<close> up to the next line terminator or
  the end), and fails with \<open>BannedConstruct\<close> if and only if the remaining text holds \<open>for\<close>
  or \<open>while\<close>, not directly behind a word character, followed by any white space and \<open>(\<close>,
  or \<open>.forEach\<close> followed by any white space and \<open>(\<close>; otherwise it passes.
  Consequently, for a file made of code pieces, block comments and line comments
  (\<open>commented\<close>), the remaining text is the code pieces joined, whatever the comments hold:
  the file fails when a code piece holds \<open>for\<close>, white space and \<open>(\<close> and the code before
  that \<open>for\<close> is empty or ends in a character that is no word character, and it passes
  exactly when the joined code holds none of the three patterns. In particular a file
  without any \<open>/\<close> is tested as it is, and a file that is one line comment or one block
  comment passes.
\<close>

theorem keywordTest_after_stripping:
  "codeWithoutComments c = removeLineComments (removeBlockComments c) \<and>
   (keywordTest c = Inr () \<longleftrightarrow>
      \<not> callOf (js ''for'') (codeWithoutComments c) \<and>
      \<not> callOf (js ''while'') (codeWithoutComments c) \<and>
      \<not> methodCallOf (js ''forEach'') (codeWithoutComments c)) \<and>
   ((\<exists>b. keywordTest c = Inl (BannedConstruct b)) \<longleftrightarrow>
      callOf (js ''for'') (codeWithoutComments c) \<or>
      callOf (js ''while'') (codeWithoutComments c) \<or>
      methodCallOf (js ''forEach'') (codeWithoutComments c)) \<and>
   (commented segs \<longrightarrow> codeWithoutComments (fileOf segs) = codeOf segs) \<and>
   (commented segs \<and> segs = s1 @ Code (pre @ js ''for'' @ ws @ js ''('' @ post) # s2 \<and>
    (\<forall>x\<in>set ws. isWhiteSpace x) \<and> \<not> isWordAt (beforeOf None (codeOf s1 @ pre)) \<longrightarrow>
      keywordTest (fileOf segs) = Inl (BannedConstruct BannedFor)) \<and>
   (commented segs \<longrightarrow>
      (keywordTest (fileOf segs) = Inr () \<longleftrightarrow>
         \<not> callOf (js ''for'') (codeOf segs) \<and> \<not> callOf (js ''while'') (codeOf segs) \<and>
         \<not> methodCallOf (js ''forEach'') (codeOf segs))) \<and>
   (47 \<notin> set c \<longrightarrow> codeWithoutComments c = c) \<and>
   (47 \<notin> set c \<and> callOf (js ''for'') c \<longrightarrow> keywordTest c = Inl (BannedConstruct BannedFor)) \<and>
   ((\<forall>x\<in>set t. \<not> isLineTerminator x) \<and> (t = [] \<or> hd t \<noteq> 42) \<longrightarrow>
      keywordTest (js ''//'' @ t) = Inr ()) \<and>
   (\<not> sublist (js ''*/'') t \<longrightarrow> keywordTest (js ''/*'' @ t @ js ''*/'') = Inr ())"
proof -
  have c1: "codeWithoutComments c = removeLineComments (removeBlockComments c)"
    by (rule codeWithoutComments_removes)
  have c2: "keywordTest c = Inr () \<longleftrightarrow>
      \<not> callOf (js ''for'') (codeWithoutComments c) \<and>
      \<not> callOf (js ''while'') (codeWithoutComments c) \<and>
      \<not> methodCallOf (js ''forEach'') (codeWithoutComments c)"
    by (simp add: keywordTest_calls)
  have c3: "(\<exists>b. keywordTest c = Inl (BannedConstruct b)) \<longleftrightarrow>
      callOf (js ''for'') (codeWithoutComments c) \<or>
      callOf (js ''while'') (codeWithoutComments c) \<or>
      methodCallOf (js ''forEach'') (codeWithoutComments c)"
    by (auto simp: keywordTest_calls)
  have c4: "commented segs \<longrightarrow> codeWithoutComments (fileOf segs) = codeOf segs"
    by (simp add: codeWithoutComments_file)
  have c5: "commented segs \<and> segs = s1 @ Code (pre @ js ''for'' @ ws @ js ''('' @ post) # s2 \<and>
    (\<forall>x\<in>set ws. isWhiteSpace x) \<and> \<not> isWordAt (beforeOf None (codeOf s1 @ pre)) \<longrightarrow>
      keywordTest (fileOf segs) = Inl (BannedConstruct BannedFor)"
  proof (intro impI, elim conjE)
    assume h: "commented segs" "segs = s1 @ Code (pre @ js ''for'' @ ws @ js ''('' @ post) # s2"
      "\<forall>x\<in>set ws. isWhiteSpace x" "\<not> isWordAt (beforeOf None (codeOf s1 @ pre))"
    from callOf_in_code [OF h(2,3,4)] have "callOf (js ''for'') (codeOf segs)" .
    with h(1) show "keywordTest (fileOf segs) = Inl (BannedConstruct BannedFor)"
      by (simp add: keywordTest_calls codeWithoutComments_file)
  qed
  have c6: "commented segs \<longrightarrow>
      (keywordTest (fileOf segs) = Inr () \<longleftrightarrow>
         \<not> callOf (js ''for'') (codeOf segs) \<and> \<not> callOf (js ''while'') (codeOf segs) \<and>
         \<not> methodCallOf (js ''forEach'') (codeOf segs))"
    by (simp add: keywordTest_calls codeWithoutComments_file)
  have c7: "47 \<notin> set c \<longrightarrow> codeWithoutComments c = c"
    by (simp add: codeWithoutComments_no_slash)
  have c8: "47 \<notin> set c \<and> callOf (js ''for'') c \<longrightarrow> keywordTest c = Inl (BannedConstruct BannedFor)"
    by (simp add: keywordTest_calls codeWithoutComments_no_slash)
  have c9: "(\<forall>x\<in>set t. \<not> isLineTerminator x) \<and> (t = [] \<or> hd t \<noteq> 42) \<longrightarrow>
      keywordTest (js ''//'' @ t) = Inr ()"
    by (simp add: keywordTest_calls codeWithoutComments_line no_call_in_empty)
  have c10: "\<not> sublist (js ''*/'') t \<longrightarrow> keywordTest (js ''/*'' @ t @ js ''*/'') = Inr ()"
    by (simp add: keywordTest_calls codeWithoutComments_block no_call_in_empty)
  from c1 c2 c3 c4 c5 c6 c7 c8 c9 c10 show ?thesis
    by (intro conjI)
qed

theorem keywordTest_after_stripping_witness:
  "commented [Block (js '' a ''), Code (js '' for (;;){} ''), Block (js '' b '')] \<and>
   fileOf [Block (js '' a ''), Code (js '' for (;;){} ''), Block (js '' b '')]
     = js ''/* a */ for (;;){} /* b */'' \<and>
   keywordTest (js ''/* a */ for (;;){} /* b */'') = Inl (BannedConstruct BannedFor) \<and>
   commented [Code (js ''x = 1 ''), Line (js '' for (;;){}'')] \<and>
   fileOf [Code (js ''x = 1 ''), Line (js '' for (;;){}'')] = js ''x = 1 // for (;;){}'' \<and>
   keywordTest (js ''x = 1 // for (;;){}'') = Inr () \<and>
   keywordTest (js ''for (;;){}'') = Inl (BannedConstruct BannedFor) \<and>
   keywordTest (js ''// for (;;){}'') = Inr () \<and>
   keywordTest (js ''/* for (;;){} */'') = Inr ()"
proof -
  let ?s1 = "[Block (js '' a ''), Code (js '' for (;;){} ''), Block (js '' b '')]"
  let ?s2 = "[Code (js ''x = 1 ''), Line (js '' for (;;){}'')]"
  have w1: "commented ?s1" by code_simp
  have w2: "commented ?s2" by code_simp
  have f1: "fileOf ?s1 = js ''/* a */ for (;;){} /* b */''" by (simp add: js_def)
  have f2: "fileOf ?s2 = js ''x = 1 // for (;;){}''" by (simp add: js_def)
  have d1: "?s1 = [Block (js '' a '')] @ Code (js '' '' @ js ''for'' @ js '' '' @ js ''('' @ js '';;){} '') # [Block (js '' b '')]"
    by (simp add: js_def)
  have ws: "\<forall>x\<in>set (js '' ''). isWhiteSpace x" by (simp add: js_def isWhiteSpace_def)
  have nb: "\<not> isWordAt (beforeOf None (codeOf [Block (js '' a '')] @ js '' ''))"
    by (simp add: js_def isWordAt_def isWordChar_def beforeOf_Cons)
  have n2: "\<not> callOf (js ''for'') (codeOf ?s2)" "\<not> callOf (js ''while'') (codeOf ?s2)"
    "\<not> methodCallOf (js ''forEach'') (codeOf ?s2)"
    unfolding regexTest_for [symmetric] regexTest_while [symmetric] regexTest_forEach [symmetric]
    by code_simp+
  have c: "47 \<notin> set (js ''for (;;){}'')"
    by (simp add: js_def)
  have f: "callOf (js ''for'') (js ''for (;;){}'')"
    unfolding regexTest_for [symmetric] by code_simp
  have l: "\<forall>x\<in>set (js '' for (;;){}''). \<not> isLineTerminator x" "hd (js '' for (;;){}'') \<noteq> 42"
    by (simp_all add: js_def isLineTerminator_def)
  have s: "\<not> sublist (js ''*/'') (js '' for (;;){} '')"
    by code_simp
  have e: "js ''//'' @ js '' for (;;){}'' = js ''// for (;;){}''"
    "js ''/*'' @ js '' for (;;){} '' @ js ''*/'' = js ''/* for (;;){} */''"
    by (simp_all add: js_def)
  have k1: "keywordTest (fileOf ?s1) = Inl (BannedConstruct BannedFor)"
    using keywordTest_after_stripping [where segs = ?s1 and ?s1.0 = "[Block (js '' a '')]"
        and pre = "js '' ''" and ws = "js '' ''" and post = "js '';;){} ''" and ?s2.0 = "[Block (js '' b '')]"]
      w1 d1 ws nb by blast
  have k2: "keywordTest (fileOf ?s2) = Inr ()"
    using keywordTest_after_stripping [where segs = ?s2] w2 n2 by blast
  have k3: "keywordTest (js ''for (;;){}'') = Inl (BannedConstruct BannedFor)"
    using keywordTest_after_stripping [of "js ''for (;;){}''"] c f by blast
  have k4: "keywordTest (js ''// for (;;){}'') = Inr ()"
    using keywordTest_after_stripping [where t = "js '' for (;;){}''"] l unfolding e by blast
  have k5: "keywordTest (js ''/* for (;;){} */'') = Inr ()"
    using keywordTest_after_stripping [where t = "js '' for (;;){} ''"] s unfolding e by blast
  from w1 w2 f1 f2 k1 k2 k3 k4 k5 show ?thesis
    by (simp only: simp_thms)
qed

subsection \<open>Static rule checker: recursion\<close>

text \<open>
  Claim C3 says that the recursion test fails if and only if the body of some extracted
  definition holds the definition's own name followed by \<open>(\<close>. On the code the bodies are
  kept in a map from names, so a later definition of a name replaces the body of an earlier
  one. In the file \<open>function f(){f()} function f(){}\<close> two definitions of \<open>f\<close> are extracted,
  the body of the first one calls \<open>f\<close>, and the test passes. Nor is the extraction bound to
  the top level: in \<open>if (x) { function b(){ b() } }\<close> the declaration inside the block is
  extracted, and the test fails.
\<close>

theorem recursionTest_redefinition_counterexample:
  "extracted (js ''function f(){f()} function f(){}'') = [(js ''f'', js ''f()''), (js ''f'', [])] \<and>
   callOf (js ''f'') (js ''f()'') \<and>
   recursionTest (js ''function f(){f()} function f(){}'') = Inr () \<and>
   recursionTest (js ''if (x) { function b(){ b() } }'') = Inl (SelfRecursion (js ''b''))"
proof -
  have "extracted (js ''function f(){f()} function f(){}'') = [(js ''f'', js ''f()''), (js ''f'', [])]"
    by code_simp
  moreover have "regexTest (callPattern (js ''f'')) (js ''f()'')"
    by code_simp
  then have "callOf (js ''f'') (js ''f()'')"
    by (subst (asm) regexTest_callPattern) (simp_all add: js_def isWordChar_def)
  moreover have "recursionTest (js ''function f(){f()} function f(){}'') = Inr ()"
    by code_simp
  moreover have "recursionTest (js ''if (x) { function b(){ b() } }'') = Inl (SelfRecursion (js ''b''))"
    by code_simp
  ultimately show ?thesis by (intro conjI)
qed

text \<open>
  Claim C3, amended. For every file content the recursion test extracts the function
  declarations and then the arrow functions bound with \<open>const\<close>, \<open>let\<close> or \<open>var\<close> to a
  parameter list in parentheses, each with its name and its body: what the two patterns
  match is what \<open>scanFunctions\<close> and \<open>scanArrows\<close> read, going through the file from the
  left, taking a definition where its text starts and going on behind it, so that a
  definition inside a block is extracted and one inside the text of an extracted definition
  is not. A function's body ends before the first \<open>}\<close>, an arrow function's body runs up to
  the first \<open>;\<close> or the end of the file. For every name the test holds the body of the last
  extracted definition of that name. It fails with \<open>SelfRecursion\<close> if and only if for some
  name that body holds the name, not directly behind a word character, followed by any
  white space and \<open>(\<close>; otherwise it passes. When no name is extracted twice, that is: if
  and only if the body of some extracted definition holds the definition's own name so
  followed. A file that is one function declaration and holds no \<open>=\<close> followed by \<open>(\<close> fails
  when the body calls the function by name, and passes when it does not.
\<close>

theorem recursionTest_last_definition:
  "(recursionTest c = Inr () \<longleftrightarrow> \<not> (\<exists>n b. recordedBody c n = Some b \<and> callOf n b)) \<and>
   ((\<exists>n. recursionTest c = Inl (SelfRecursion n)) \<longleftrightarrow>
      (\<exists>n b. recordedBody c n = Some b \<and> callOf n b)) \<and>
   (\<forall>e. recursionTest c = Inl e \<longrightarrow>
      (\<exists>n b. e = SelfRecursion n \<and> recordedBody c n = Some b \<and> callOf n b)) \<and>
   (\<forall>n b. recordedBody c n = Some b \<longleftrightarrow>
      (\<exists>xs ys. extracted c = xs @ (n, b) # ys \<and> n \<notin> fst ` set ys)) \<and>
   map_of (functionBodies c) = recordedBody c \<and>
   map (\<lambda>m. (capture m 1, capture m 2)) (matchAll functionRegex c) = scanFunctions c \<and>
   map (\<lambda>m. (capture m 1, capture m 2)) (matchAll arrowRegex c) = scanArrows c \<and>
   scanFunctions [] = [] \<and>
   scanFunctions (x # xs) =
     (case functionAt (x # xs) of
        Some (d, behind) \<Rightarrow> d # scanFunctions behind
      | None \<Rightarrow> scanFunctions xs) \<and>
   scanArrows [] = [] \<and>
   scanArrows (x # xs) =
     (case arrowAt (x # xs) of
        Some (d, behind) \<Rightarrow> d # scanArrows behind
      | None \<Rightarrow> scanArrows xs) \<and>
   (functionAt t = Some ((n, b), r) \<longleftrightarrow> (\<exists>d. t = d @ r \<and> functionDeclaration n b d)) \<and>
   (arrowAt t = Some ((n, b), r) \<longleftrightarrow>
      (\<exists>d. t = d @ r \<and> arrowAssignment n b d \<and> (r = [] \<or> hd r = 0x3B) \<and>
           (\<not> isWhiteSpace (hd b) \<or> length b = 1))) \<and>
   (distinct (map fst (extracted c)) \<longrightarrow>
      (recursionTest c = Inr () \<longleftrightarrow> \<not> (\<exists>(n, b)\<in>set (extracted c). callOf n b))) \<and>
   (functionDeclaration n b c \<and> \<not> parenAfter (js ''='') c \<longrightarrow>
      extracted c = [(n, b)] \<and>
      recursionTest c = (if callOf n b then Inl (SelfRecursion n) else Inr ())) \<and>
   (\<forall>m\<in>set (matchAll functionRegex c).
      \<exists>pre rs. c = pre @ matched m @ rs \<and>
        functionDeclaration (capture m 1) (capture m 2) (matched m)) \<and>
   (\<forall>m\<in>set (matchAll arrowRegex c).
      \<exists>pre rs. c = pre @ matched m @ rs \<and>
        arrowAssignment (capture m 1) (capture m 2) (matched m) \<and> (rs = [] \<or> hd rs = 0x3B))"
proof -
  note r = recursionTest_calls [of c, folded recordedBody_def]
  have 1: "recursionTest c = Inr () \<longleftrightarrow> \<not> (\<exists>n b. recordedBody c n = Some b \<and> callOf n b)"
    using r by (rule conjunct1)
  have 2: "(\<exists>n. recursionTest c = Inl (SelfRecursion n)) \<longleftrightarrow>
      (\<exists>n b. recordedBody c n = Some b \<and> callOf n b)"
    using r by (rule conjunct2 [THEN conjunct1])
  have 3: "\<forall>e. recursionTest c = Inl e \<longrightarrow>
      (\<exists>n b. e = SelfRecursion n \<and> recordedBody c n = Some b \<and> callOf n b)"
    using r by (rule conjunct2 [THEN conjunct2])
  have 4: "\<forall>n b. recordedBody c n = Some b \<longleftrightarrow>
      (\<exists>xs ys. extracted c = xs @ (n, b) # ys \<and> n \<notin> fst ` set ys)"
    by (intro allI) (rule recordedBody_last)
  have 5: "map_of (functionBodies c) = recordedBody c"
    by (rule ext) (simp add: functionBodies_map_of recordedBody_def)
  have 6: "\<forall>m\<in>set (matchAll functionRegex c).
      \<exists>pre rs. c = pre @ matched m @ rs \<and>
        functionDeclaration (capture m 1) (capture m 2) (matched m)"
    by (intro ballI) (rule matchAll_function)
  have 7: "\<forall>m\<in>set (matchAll arrowRegex c).
      \<exists>pre rs. c = pre @ matched m @ rs \<and>
        arrowAssignment (capture m 1) (capture m 2) (matched m) \<and> (rs = [] \<or> hd rs = 0x3B)"
    by (intro ballI) (rule matchAll_arrow)
  have 8: "distinct (map fst (extracted c)) \<longrightarrow>
      (recursionTest c = Inr () \<longleftrightarrow> \<not> (\<exists>(n, b)\<in>set (extracted c). callOf n b))"
    using recursionTest_distinct by blast
  have 9: "functionDeclaration n b c \<and> \<not> parenAfter (js ''='') c \<longrightarrow>
      extracted c = [(n, b)] \<and>
      recursionTest c = (if callOf n b then Inl (SelfRecursion n) else Inr ())"
    using single_declaration [of n b c] recursionTest_single [of c n b] by blast
  from 1 2 3 4 5 scanFunctions_matches [of c] scanArrows_matches [of c] scanFunctions_Nil
    scanFunctions_Cons [of x xs] scanArrows_Nil scanArrows_Cons [of x xs]
    functionAt_iff [of t n b r] arrowAt_iff [of t n b r] 8 9 6 7
  show ?thesis by (intro conjI)
qed

theorem recursionTest_last_definition_witness:
  "functionDeclaration (js ''f'') (js '' f(1) '') (js ''function f(){ f(1) }'') \<and>
   \<not> parenAfter (js ''='') (js ''function f(){ f(1) }'') \<and>
   callOf (js ''f'') (js '' f(1) '') \<and>
   recursionTest (js ''function f(){ f(1) }'') = Inl (SelfRecursion (js ''f'')) \<and>
   functionDeclaration (js ''f'') (js '' g(1) '') (js ''function f(){ g(1) }'') \<and>
   \<not> callOf (js ''f'') (js '' g(1) '') \<and>
   recursionTest (js ''function f(){ g(1) }'') = Inr () \<and>
   extracted (js ''function a(){ function b(){ b() } }'') = [(js ''a'', js '' function b(){ b() '')] \<and>
   distinct (map fst (extracted (js ''function a(){ function b(){ b() } }''))) \<and>
   recursionTest (js ''function a(){ function b(){ b() } }'') = Inr ()"
proof -
  let ?c1 = "js ''function f(){ f(1) }''" and ?c2 = "js ''function f(){ g(1) }''"
  let ?c3 = "js ''function a(){ function b(){ b() } }''"
  have w: "isWordChar (hd (js ''f''))" "js ''f'' \<noteq> []"
    by (simp_all add: js_def isWordChar_def)
  have "functionAt ?c1 = Some ((js ''f'', js '' f(1) ''), [])" by code_simp
  with recursionTest_last_definition [where t = ?c1 and n = "js ''f''" and b = "js '' f(1) ''" and r = "[]"]
  have d1: "functionDeclaration (js ''f'') (js '' f(1) '') ?c1" by simp
  have "functionAt ?c2 = Some ((js ''f'', js '' g(1) ''), [])" by code_simp
  with recursionTest_last_definition [where t = ?c2 and n = "js ''f''" and b = "js '' g(1) ''" and r = "[]"]
  have d2: "functionDeclaration (js ''f'') (js '' g(1) '') ?c2" by simp
  have p1: "\<not> parenAfter (js ''='') ?c1" and p2: "\<not> parenAfter (js ''='') ?c2"
    unfolding regexTest_parenAfter [symmetric] by code_simp+
  have "regexTest (callPattern (js ''f'')) (js '' f(1) '')" by code_simp
  then have k1: "callOf (js ''f'') (js '' f(1) '')"
    unfolding regexTest_callPattern [OF w(2,1)] .
  have "\<not> regexTest (callPattern (js ''f'')) (js '' g(1) '')" by code_simp
  then have k2: "\<not> callOf (js ''f'') (js '' g(1) '')"
    unfolding regexTest_callPattern [OF w(2,1)] .
  from recursionTest_last_definition [where c = ?c1 and n = "js ''f''" and b = "js '' f(1) ''"] d1 p1 k1
  have r1: "recursionTest ?c1 = Inl (SelfRecursion (js ''f''))" by simp
  from recursionTest_last_definition [where c = ?c2 and n = "js ''f''" and b = "js '' g(1) ''"] d2 p2 k2
  have r2: "recursionTest ?c2 = Inr ()" by simp
  have e3: "extracted ?c3 = [(js ''a'', js '' function b(){ b() '')]" by code_simp
  then have d3: "distinct (map fst (extracted ?c3))" by simp
  have "\<not> regexTest (callPattern (js ''a'')) (js '' function b(){ b() '')" by code_simp
  then have "\<not> callOf (js ''a'') (js '' function b(){ b() '')"
    by (subst (asm) regexTest_callPattern) (simp_all add: js_def isWordChar_def)
  with recursionTest_last_definition [where c = ?c3] d3 e3
  have r3: "recursionTest ?c3 = Inr ()" by simp
  from d1 p1 k1 r1 d2 k2 r2 e3 d3 r3 show ?thesis by (intro conjI)
qed

text \<open>
  Claim C9 says that the recursion test fails whenever an extracted body holds the
  function's own name followed by \<open>(\<close> inside a comment. As the test holds, for a name, the
  body of the last extracted definition only, this fails on the code for a name that is
  defined again: in \<open>function f(){ /* f() */ } function f(){}\<close> the first extracted body
  holds \<open>f()\<close> in a comment, and the test passes.
\<close>

theorem recursionTest_commented_call_counterexample:
  "extracted (js ''function f(){ /* f() */ } function f(){}'')
     = [(js ''f'', js '' /* f() */ ''), (js ''f'', [])] \<and>
   callOf (js ''f'') (js '' /* f() */ '') \<and>
   recordedBody (js ''function f(){ /* f() */ } function f(){}'') (js ''f'') = Some [] \<and>
   recursionTest (js ''function f(){ /* f() */ } function f(){}'') = Inr ()"
proof -
  have e: "extracted (js ''function f(){ /* f() */ } function f(){}'')
     = [(js ''f'', js '' /* f() */ ''), (js ''f'', [])]"
    by code_simp
  have "regexTest (callPattern (js ''f'')) (js '' /* f() */ '')"
    by code_simp
  then have c: "callOf (js ''f'') (js '' /* f() */ '')"
    by (subst (asm) regexTest_callPattern) (simp_all add: js_def isWordChar_def)
  have r: "recordedBody (js ''function f(){ /* f() */ } function f(){}'') (js ''f'') = Some []"
    by (simp add: recordedBody_def e)
  have t: "recursionTest (js ''function f(){ /* f() */ } function f(){}'') = Inr ()"
    by code_simp
  from e c r t show ?thesis by (intro conjI)
qed

text \<open>
  Claim C9, amended. The recursion test reads the file as it is, comments included: every
  extracted body is a piece of the raw file content, and whenever the body of the last
  extracted definition of a name holds that name followed by \<open>(\<close>, wherever in the body,
  the test fails with \<open>SelfRecursion\<close>. In particular a file that is one function
  declaration, with no \<open>=\<close> followed by \<open>(\<close>, whose body holds a block comment that calls the
  function by name, fails. So the file \<open>function f(){ /* f() */ }\<close>, whose only call of \<open>f\<close>
  is inside a comment, fails, although the same file passes once the keyword test's comment
  stripping is applied to it.
\<close>

theorem recursionTest_reads_raw_text:
  "(\<forall>n b. recordedBody c n = Some b \<and> callOf n b \<longrightarrow>
      (\<exists>n'. recursionTest c = Inl (SelfRecursion n'))) \<and>
   (\<forall>(n, b)\<in>set (extracted c). sublist b c) \<and>
   (functionDeclaration n (u @ js ''/*'' @ v @ js ''*/'' @ w) c \<and> \<not> parenAfter (js ''='') c \<and>
    callOf n v \<longrightarrow> recursionTest c = Inl (SelfRecursion n)) \<and>
   recursionTest (js ''function f(){ /* f() */ }'') = Inl (SelfRecursion (js ''f'')) \<and>
   recursionTest (codeWithoutComments (js ''function f(){ /* f() */ }'')) = Inr ()"
proof -
  have 1: "\<forall>n b. recordedBody c n = Some b \<and> callOf n b \<longrightarrow>
      (\<exists>n'. recursionTest c = Inl (SelfRecursion n'))"
    using recursionTest_calls [of c] unfolding recordedBody_def by blast
  have 2: "\<forall>(n, b)\<in>set (extracted c). sublist b c"
    using extracted_body_sublist by blast
  have 3: "functionDeclaration n (u @ js ''/*'' @ v @ js ''*/'' @ w) c \<and> \<not> parenAfter (js ''='') c \<and>
    callOf n v \<longrightarrow> recursionTest c = Inl (SelfRecursion n)"
  proof (intro impI, elim conjE)
    assume h: "functionDeclaration n (u @ js ''/*'' @ v @ js ''*/'' @ w) c" "\<not> parenAfter (js ''='') c"
      "callOf n v"
    from callOf_in_comment [OF h(3)] have "callOf n (u @ js ''/*'' @ v @ js ''*/'' @ w)" .
    with recursionTest_single [OF single_declaration [OF h(1,2)]]
    show "recursionTest c = Inl (SelfRecursion n)" by simp
  qed
  have 4: "recursionTest (js ''function f(){ /* f() */ }'') = Inl (SelfRecursion (js ''f''))"
    by code_simp
  have 5: "recursionTest (codeWithoutComments (js ''function f(){ /* f() */ }'')) = Inr ()"
    by code_simp
  from 1 2 3 4 5 show ?thesis by (intro conjI)
qed

theorem recursionTest_reads_raw_text_witness:
  "recordedBody (js ''function f(){ /* f() */ }'') (js ''f'') = Some (js '' /* f() */ '') \<and>
   callOf (js ''f'') (js '' /* f() */ '') \<and>
   sublist (js '' /* f() */ '') (js ''function f(){ /* f() */ }'') \<and>
   (\<exists>n'. recursionTest (js ''function f(){ /* f() */ }'') = Inl (SelfRecursion n')) \<and>
   functionDeclaration (js ''g'') (js ''return 1 /* g (2) */'') (js ''function g (x) {return 1 /* g (2) */}'') \<and>
   \<not> parenAfter (js ''='') (js ''function g (x) {return 1 /* g (2) */}'') \<and>
   callOf (js ''g'') (js '' g (2) '') \<and>
   recursionTest (js ''function g (x) {return 1 /* g (2) */}'') = Inl (SelfRecursion (js ''g''))"
proof -
  let ?c = "js ''function f(){ /* f() */ }''" and ?d = "js ''function g (x) {return 1 /* g (2) */}''"
  have e: "extracted ?c = [(js ''f'', js '' /* f() */ '')]"
    by code_simp
  then have r: "recordedBody ?c (js ''f'') = Some (js '' /* f() */ '')"
    by (simp add: recordedBody_def)
  have "regexTest (callPattern (js ''f'')) (js '' /* f() */ '')"
    by code_simp
  then have c: "callOf (js ''f'') (js '' /* f() */ '')"
    by (subst (asm) regexTest_callPattern) (simp_all add: js_def isWordChar_def)
  from recursionTest_reads_raw_text [of ?c] e r c
  have a: "sublist (js '' /* f() */ '') ?c" "\<exists>n'. recursionTest ?c = Inl (SelfRecursion n')"
    by auto
  have "functionAt ?d = Some ((js ''g'', js ''return 1 /* g (2) */''), [])" by code_simp
  from functionAt_sound [OF this] have fd: "functionDeclaration (js ''g'') (js ''return 1 /* g (2) */'') ?d"
    by simp
  have p: "\<not> parenAfter (js ''='') ?d"
    unfolding regexTest_parenAfter [symmetric] by code_simp
  have "regexTest (callPattern (js ''g'')) (js '' g (2) '')"
    by code_simp
  then have k: "callOf (js ''g'') (js '' g (2) '')"
    by (subst (asm) regexTest_callPattern) (simp_all add: js_def isWordChar_def)
  have s: "js ''return 1 /* g (2) */'' = js ''return 1 '' @ js ''/*'' @ js '' g (2) '' @ js ''*/'' @ []"
    by (simp add: js_def)
  from recursionTest_reads_raw_text [where c = ?d and n = "js ''g''" and u = "js ''return 1 ''"
      and v = "js '' g (2) ''" and w = "[]"] fd p k
  have t: "recursionTest ?d = Inl (SelfRecursion (js ''g''))"
    unfolding s [symmetric] by blast
  from r c a fd p k t show ?thesis by (intro conjI)
qed

text \<open>
  Claim C10 says that a file whose self-recursive function is an arrow function with one
  parameter without parentheses passes the recursion test. That definition is indeed not
  extracted, but the file may fail all the same, on another definition: in the three lines
  \<open>const g = (y) => y\<close>, \<open>const f = x => f(x - 1)\<close>, \<open>g(1)\<close>, written without \<open>;\<close>, the body
  extracted for \<open>g\<close> runs to the end of the file and holds \<open>g(\<close>.
\<close>

theorem arrow_unparenthesized_counterexample:
  "extracted (js ''const g = (y) => y'' @ 0x0A # js ''const f = x => f(x - 1)'' @ 0x0A # js ''g(1)'')
     = [(js ''g'', js ''y'' @ 0x0A # js ''const f = x => f(x - 1)'' @ 0x0A # js ''g(1)'')] \<and>
   recursionTest (js ''const g = (y) => y'' @ 0x0A # js ''const f = x => f(x - 1)'' @ 0x0A # js ''g(1)'')
     = Inl (SelfRecursion (js ''g''))"
proof -
  have "extracted (js ''const g = (y) => y'' @ 0x0A # js ''const f = x => f(x - 1)'' @ 0x0A # js ''g(1)'')
     = [(js ''g'', js ''y'' @ 0x0A # js ''const f = x => f(x - 1)'' @ 0x0A # js ''g(1)'')]"
    by code_simp
  moreover have "recursionTest (js ''const g = (y) => y'' @ 0x0A # js ''const f = x => f(x - 1)'' @ 0x0A # js ''g(1)'')
     = Inl (SelfRecursion (js ''g''))"
    by code_simp
  ultimately show ?thesis by (intro conjI)
qed

text \<open>
  Claim C10, amended. The arrow-function pattern needs \<open>(\<close> behind the \<open>=\<close>: at a \<open>const\<close>,
  \<open>let\<close> or \<open>var\<close> assignment whose right side starts with anything but \<open>(\<close> (a parameter
  without parentheses) the pattern does not match and nothing is read, so the definition is
  not extracted, and every text the pattern does match has its parameter list in
  parentheses. The file passes exactly when no body held for an extracted name calls that
  name; in particular a file that nowhere holds \<open>function\<close> and nowhere holds \<open>=\<close> followed
  by \<open>(\<close> has no extracted definition at all and passes. So \<open>const f = x => f(x - 1);\<close>
  passes, while \<open>const f = (x) => f(x - 1);\<close> fails.
\<close>

theorem arrow_parameter_unparenthesized:
  "((kw = js ''const'' \<or> kw = js ''let'' \<or> kw = js ''var'') \<and>
    (\<forall>c\<in>set ws1. isWhiteSpace c) \<and> name \<noteq> [] \<and> (\<forall>c\<in>set name. isWordChar c) \<and>
    (\<forall>c\<in>set ws2. isWhiteSpace c) \<and> (\<forall>c\<in>set ws3. isWhiteSpace c) \<and>
    \<not> isWhiteSpace x \<and> x \<noteq> 0x28 \<longrightarrow>
      execAt arrowRegex p (kw @ ws1 @ name @ ws2 @ js ''='' @ ws3 @ x # xs) = None \<and>
      arrowAt (kw @ ws1 @ name @ ws2 @ js ''='' @ ws3 @ x # xs) = None) \<and>
   (\<not> sublist (js ''function'') c \<and> \<not> parenAfter (js ''='') c \<longrightarrow>
      extracted c = [] \<and> recursionTest c = Inr ()) \<and>
   (recursionTest c = Inr () \<longleftrightarrow> \<not> (\<exists>n b. recordedBody c n = Some b \<and> callOf n b)) \<and>
   (\<forall>m\<in>set (matchAll arrowRegex c). arrowAssignment (capture m 1) (capture m 2) (matched m)) \<and>
   extracted (js ''const f = x => f(x - 1);'') = [] \<and>
   recursionTest (js ''const f = x => f(x - 1);'') = Inr () \<and>
   recursionTest (js ''const f = (x) => f(x - 1);'') = Inl (SelfRecursion (js ''f''))"
proof -
  have 1: "(kw = js ''const'' \<or> kw = js ''let'' \<or> kw = js ''var'') \<and>
    (\<forall>c\<in>set ws1. isWhiteSpace c) \<and> name \<noteq> [] \<and> (\<forall>c\<in>set name. isWordChar c) \<and>
    (\<forall>c\<in>set ws2. isWhiteSpace c) \<and> (\<forall>c\<in>set ws3. isWhiteSpace c) \<and>
    \<not> isWhiteSpace x \<and> x \<noteq> 0x28 \<longrightarrow>
      execAt arrowRegex p (kw @ ws1 @ name @ ws2 @ js ''='' @ ws3 @ x # xs) = None \<and>
      arrowAt (kw @ ws1 @ name @ ws2 @ js ''='' @ ws3 @ x # xs) = None"
  proof (intro impI, elim conjE, intro conjI)
    assume h: "kw = js ''const'' \<or> kw = js ''let'' \<or> kw = js ''var''"
      "\<forall>c\<in>set ws1. isWhiteSpace c" "name \<noteq> []" "\<forall>c\<in>set name. isWordChar c"
      "\<forall>c\<in>set ws2. isWhiteSpace c" "\<forall>c\<in>set ws3. isWhiteSpace c" "\<not> isWhiteSpace x" "x \<noteq> 0x28"
    then show "execAt arrowRegex p (kw @ ws1 @ name @ ws2 @ js ''='' @ ws3 @ x # xs) = None"
      by (rule arrow_needs_parenthesis)
    from h show "arrowAt (kw @ ws1 @ name @ ws2 @ js ''='' @ ws3 @ x # xs) = None"
      by (rule arrowAt_needs_parenthesis)
  qed
  have 2: "\<not> sublist (js ''function'') c \<and> \<not> parenAfter (js ''='') c \<longrightarrow>
      extracted c = [] \<and> recursionTest c = Inr ()"
  proof (intro impI, elim conjE)
    assume "\<not> sublist (js ''function'') c" "\<not> parenAfter (js ''='') c"
    then have "extracted c = []" by (rule no_definitions)
    then show "extracted c = [] \<and> recursionTest c = Inr ()"
      using recursionTest_calls [of c] by simp
  qed
  have 3: "recursionTest c = Inr () \<longleftrightarrow> \<not> (\<exists>n b. recordedBody c n = Some b \<and> callOf n b)"
    using recursionTest_calls [of c, folded recordedBody_def] by (rule conjunct1)
  have 4: "\<forall>m\<in>set (matchAll arrowRegex c). arrowAssignment (capture m 1) (capture m 2) (matched m)"
    using matchAll_arrow by blast
  have 5: "extracted (js ''const f = x => f(x - 1);'') = []"
    by code_simp
  have 6: "recursionTest (js ''const f = x => f(x - 1);'') = Inr ()"
    by code_simp
  have 7: "recursionTest (js ''const f = (x) => f(x - 1);'') = Inl (SelfRecursion (js ''f''))"
    by code_simp
  from 1 2 3 4 5 6 7 show ?thesis by (intro conjI)
qed

theorem arrow_parameter_unparenthesized_witness:
  "execAt arrowRegex None (js ''const f = x => f(x - 1);'') = None \<and>
   arrowAt (js ''const f = x => f(x - 1);'') = None \<and>
   \<not> sublist (js ''function'') (js ''let g = y => g(y);'') \<and>
   \<not> parenAfter (js ''='') (js ''let g = y => g(y);'') \<and>
   extracted (js ''let g = y => g(y);'') = [] \<and>
   recursionTest (js ''let g = y => g(y);'') = Inr ()"
proof -
  have s: "\<not> sublist (js ''function'') (js ''let g = y => g(y);'')"
    by code_simp
  have q: "\<not> parenAfter (js ''='') (js ''let g = y => g(y);'')"
    unfolding regexTest_parenAfter [symmetric] by code_simp
  have t: "js ''const f = x => f(x - 1);''
      = js ''const'' @ js '' '' @ js ''f'' @ js '' '' @ js ''='' @ js '' '' @ 0x78 # js '' => f(x - 1);''"
    by (simp add: js_def)
  have h: "\<forall>c\<in>set (js '' ''). isWhiteSpace c" "js ''f'' \<noteq> []" "\<forall>c\<in>set (js ''f''). isWordChar c"
    "\<not> isWhiteSpace 0x78" "(0x78 :: cu) \<noteq> 0x28"
    by (simp_all add: js_def isWhiteSpace_def isWordChar_def)
  show ?thesis
    using arrow_parameter_unparenthesized [of "js ''const''" "js '' ''" "js ''f''" "js '' ''" "js '' ''"
        "0x78" None "js '' => f(x - 1);''" "js ''let g = y => g(y);''"] s q h
    unfolding t by simp
qed

subsection \<open>Execution runner\<close>

text \<open>
  Claim C6. For every run of a child process, whatever it wrote and in whatever chunks: when
  it closes with a non-zero exit code the runner fails with \<open>ExecutionFailed\<close>, whose message
  ends with all the text accumulated from the error stream; when it closes with exit code
  zero the runner resolves with all the text accumulated from the output stream.
\<close>

theorem runChild_exit_code:
  "(code = Some c \<and> c \<noteq> 0 \<longrightarrow>
      runChild chunks code = Inl (ExecutionFailed (executionFailedMessage @ stderrText chunks))) \<and>
   (code = Some 0 \<longrightarrow> runChild chunks code = Inr (stdoutText chunks))"
  by (simp add: runChild_def onClose_def fold_onData)

theorem runChild_exit_code_witness:
  "runChild [StdoutData (js ''Hello''), StderrData (js ''oops''), StdoutData (js ''!'')] (Some 1)
     = Inl (ExecutionFailed (executionFailedMessage @ js ''oops'')) \<and>
   runChild [StdoutData (js ''Hello''), StderrData (js ''oops''), StdoutData (js ''!'')] (Some 0)
     = Inr (js ''Hello!'')"
  using runChild_exit_code [of "Some 1" 1 "[StdoutData (js ''Hello''), StderrData (js ''oops''), StdoutData (js ''!'')]"]
    runChild_exit_code [of "Some 0" 0 "[StdoutData (js ''Hello''), StderrData (js ''oops''), StdoutData (js ''!'')]"]
  by (simp add: stdoutText_def stderrText_def js_def)

subsection \<open>Interpreter command\<close>

text \<open>
  Claim C7. The claim is that the command mapping of the validation pipeline and the one of
  the interactive dispatcher are the same function, both running \<open>main.ts\<close> with module
  loader semantics. On the code they differ at \<open>main.ts\<close>: the pipeline runs
  \<open>npx ts-node --esm\<close> with \<open>NODE_OPTIONS\<close> naming the module loader, the dispatcher runs
  \<open>npx ts-node\<close>. On the four other allowed names they agree.
\<close>

theorem getRunCommand_main_ts_differs:
  "getRunCommand (js ''main.ts'') = [js ''npx'', js ''ts-node'', js ''--esm''] \<and>
   getRunCommand_interactive (js ''main.ts'') = [js ''npx'', js ''ts-node''] \<and>
   getRunCommand (js ''main.ts'') \<noteq> getRunCommand_interactive (js ''main.ts'') \<and>
   spawnEnv (js ''main.ts'') = [(js ''NODE_OPTIONS'', js ''--loader ts-node/esm'')] \<and>
   map getRunCommand [js ''main.js'', js ''main.cjs'', js ''main.mjs'', js ''main.coffee'']
     = map getRunCommand_interactive [js ''main.js'', js ''main.cjs'', js ''main.mjs'', js ''main.coffee'']"
  by (simp add: getRunCommand_def getRunCommand_interactive_def spawnEnv_def js_def)

subsection \<open>Interactive dispatcher\<close>

text \<open>
  Claim C8. In run-all mode the entries are the subdirectories in sorted order; the entries
  announced are an initial part of that list, and the commands started are, one for one and
  in that order, the commands of the first entries of the list: the interpreter command of
  the entry's main file with the path of that file below \<open>src\<close>. The trace is orderly: every
  started process exits with its exit code before anything else happens, and something
  happens behind an exit only when its code was zero, so entry \<open>i + 1\<close> is started only when
  the process of entry \<open>i\<close> has exited with code zero. At the first entry whose process
  does not exit with code zero the run stops at once: that exit is the last event and the
  dispatcher ends with \<open>process.exit\<close> of that code. When the process of every entry exits
  with code zero, all entries are run and the dispatcher ends without an error exit.
\<close>

theorem runAll_sequential:
  "sorted (entryDirs srcDir) \<and>
   set (entryDirs srcDir) = {name. (name, Directory) \<in> set srcDir} \<and>
   prefix (announcedDirs (fst (runAllMode w srcDir))) (entryDirs srcDir) \<and>
   map Some (spawnedCommands (fst (runAllMode w srcDir)))
     = map (entryCommand w)
         (take (length (spawnedCommands (fst (runAllMode w srcDir)))) (entryDirs srcDir)) \<and>
   orderly w (fst (runAllMode w srcDir)) \<and>
   (\<forall>i. Suc i < length (spawnedCommands (fst (runAllMode w srcDir))) \<longrightarrow>
        runsClean w (entryDirs srcDir ! i)) \<and>
   (k < length (entryDirs srcDir) \<and> (\<forall>i<k. runsClean w (entryDirs srcDir ! i)) \<and>
    entryCommand w (entryDirs srcDir ! k) = Some argv \<and> exitCode w argv \<noteq> Some 0 \<longrightarrow>
      snd (runAllMode w srcDir) = ProcessExit (exitCode w argv) \<and>
      map Some (spawnedCommands (fst (runAllMode w srcDir)))
        = map (entryCommand w) (take (Suc k) (entryDirs srcDir)) \<and>
      announcedDirs (fst (runAllMode w srcDir)) = take (Suc k) (entryDirs srcDir) \<and>
      last (fst (runAllMode w srcDir)) = ChildExited (exitCode w argv)) \<and>
   ((\<forall>d\<in>set (entryDirs srcDir). runsClean w d) \<longrightarrow>
      snd (runAllMode w srcDir) = AllCompleted \<and>
      map Some (spawnedCommands (fst (runAllMode w srcDir))) = map (entryCommand w) (entryDirs srcDir) \<and>
      announcedDirs (fst (runAllMode w srcDir)) = entryDirs srcDir)"
proof -
  have run: "runAllMode w srcDir = runList w (entryDirs srcDir)"
    by (simp add: runAllMode_def runAll_runList)
  have c5: "\<forall>i. Suc i < length (spawnedCommands (fst (runList w (entryDirs srcDir)))) \<longrightarrow>
        runsClean w (entryDirs srcDir ! i)"
    using runList_started_after_zero by blast
  have c6: "k < length (entryDirs srcDir) \<and> (\<forall>i<k. runsClean w (entryDirs srcDir ! i)) \<and>
    entryCommand w (entryDirs srcDir ! k) = Some argv \<and> exitCode w argv \<noteq> Some 0 \<longrightarrow>
      snd (runList w (entryDirs srcDir)) = ProcessExit (exitCode w argv) \<and>
      map Some (spawnedCommands (fst (runList w (entryDirs srcDir))))
        = map (entryCommand w) (take (Suc k) (entryDirs srcDir)) \<and>
      announcedDirs (fst (runList w (entryDirs srcDir))) = take (Suc k) (entryDirs srcDir) \<and>
      last (fst (runList w (entryDirs srcDir))) = ChildExited (exitCode w argv)"
    using runList_first_failure [of k "entryDirs srcDir" w argv] by blast
  have c7: "(\<forall>d\<in>set (entryDirs srcDir). runsClean w d) \<longrightarrow>
      snd (runList w (entryDirs srcDir)) = AllCompleted \<and>
      map Some (spawnedCommands (fst (runList w (entryDirs srcDir)))) = map (entryCommand w) (entryDirs srcDir) \<and>
      announcedDirs (fst (runList w (entryDirs srcDir))) = entryDirs srcDir"
    using runList_all_zero [of "entryDirs srcDir" w] by blast
  from entryDirs_sorted [of srcDir] have s1: "sorted (entryDirs srcDir)"
    and s2: "set (entryDirs srcDir) = {name. (name, Directory) \<in> set srcDir}" by simp_all
  show ?thesis
    unfolding run
    using s1 s2 runList_announced [of w "entryDirs srcDir"] runList_commands [of w "entryDirs srcDir"]
      runList_orderly [of w "entryDirs srcDir"] c5 c6 c7
    by (intro conjI)
qed

theorem runAll_sequential_witness:
  "runAllMode (exampleWorld 3) exampleSrc =
     ([Announced (js ''a''), Spawned [js ''node'', js ''/repo/src/a/main.js''], ChildExited (Some 0),
       Announced (js ''b''), Spawned [js ''node'', js ''/repo/src/b/main.js''], ChildExited (Some 3)],
      ProcessExit (Some 3)) \<and>
   runAllMode (exampleWorld 0) exampleSrc =
     ([Announced (js ''a''), Spawned [js ''node'', js ''/repo/src/a/main.js''], ChildExited (Some 0),
       Announced (js ''b''), Spawned [js ''node'', js ''/repo/src/b/main.js''], ChildExited (Some 0),
       Announced (js ''c''), Spawned [js ''node'', js ''/repo/src/c/main.js''], ChildExited (Some 0)],
      AllCompleted)"
proof -
  have ds: "entryDirs exampleSrc = [js ''a'', js ''b'', js ''c'']"
    by (simp add: entryDirs_def exampleSrc_def isDirectory_def js_def)
  have cmd: "entryCommand (exampleWorld c) d = Some [js ''node'', js ''/repo/src/'' @ d @ js ''/main.js'']" for c d
    by (simp add: entryCommand_def exampleWorld_def findMainFile_interactive_def isFile_def
        ALLOWED_FILENAMES_interactive_def getRunCommand_interactive_def js_def)
  have ec: "exitCode (exampleWorld c) argv
      = (if argv = [js ''node'', js ''/repo/src/b/main.js''] then Some c else Some 0)" for c argv
    by (simp add: exampleWorld_def)
  have clean: "runsClean (exampleWorld c) d \<longleftrightarrow> d = js ''b'' \<longrightarrow> c = 0" for c d
    by (auto simp: runsClean_def cmd ec js_def)
  have ne: "js ''a'' \<noteq> js ''b''" "js ''c'' \<noteq> js ''b''"
    by (simp_all add: js_def)
  have tr: "fst r = t \<and> snd r = e \<longleftrightarrow> r = (t, e)" for r :: "event list \<times> ending" and t e
    by auto
  have t3: "fst (runAllMode (exampleWorld 3) exampleSrc) =
     [Announced (js ''a''), Spawned [js ''node'', js ''/repo/src/a/main.js''], ChildExited (Some 0),
      Announced (js ''b''), Spawned [js ''node'', js ''/repo/src/b/main.js''], ChildExited (Some 3)]"
    by code_simp
  have t0: "fst (runAllMode (exampleWorld 0) exampleSrc) =
     [Announced (js ''a''), Spawned [js ''node'', js ''/repo/src/a/main.js''], ChildExited (Some 0),
      Announced (js ''b''), Spawned [js ''node'', js ''/repo/src/b/main.js''], ChildExited (Some 0),
      Announced (js ''c''), Spawned [js ''node'', js ''/repo/src/c/main.js''], ChildExited (Some 0)]"
    by code_simp
  have "snd (runAllMode (exampleWorld 3) exampleSrc) = ProcessExit (Some 3) \<and>
        snd (runAllMode (exampleWorld 0) exampleSrc) = AllCompleted"
    using runAll_sequential [where srcDir = exampleSrc and w = "exampleWorld 3" and k = 1
        and argv = "[js ''node'', js ''/repo/src/b/main.js'']"]
      runAll_sequential [where srcDir = exampleSrc and w = "exampleWorld 0" and k = 0 and argv = "[]"]
    by (simp add: ds clean ne cmd ec js_def)
  with t3 t0 show ?thesis
    by (simp only: tr [symmetric] simp_thms)
qed

subsection \<open>Output verifier\<close>

text \<open>
  Claim C1. For every captured output text, the count test passes if and only if the number
  of occurrences of the literal \<open>Hello, World!\<close> in the text is 1,000,000, and fails with
  \<open>CountMismatch\<close> if and only if that number is another one. The number of occurrences is
  the number of positions at which the literal starts, and two occurrences never overlap
  (their starts are at least 13 code units apart), so it is the number of non-overlapping
  occurrences. In particular a text with 999,999 or with 1,000,001 occurrences fails.
\<close>

theorem countTest_million:
  "(countTest output = Inr () \<longleftrightarrow> occurrences (js ''Hello, World!'') output = 1000000) \<and>
   ((\<exists>n. countTest output = Inl (CountMismatch n)) \<longleftrightarrow>
      occurrences (js ''Hello, World!'') output \<noteq> 1000000) \<and>
   occurrences (js ''Hello, World!'') output =
     card {i. i \<le> length output \<and> prefix (js ''Hello, World!'') (drop i output)} \<and>
   (\<forall>i j. i < j \<and> prefix (js ''Hello, World!'') (drop i output) \<and>
          prefix (js ''Hello, World!'') (drop j output) \<longrightarrow> i + 13 \<le> j) \<and>
   (occurrences (js ''Hello, World!'') output = 999999 \<longrightarrow>
      countTest output = Inl (CountMismatch 999999)) \<and>
   (occurrences (js ''Hello, World!'') output = 1000001 \<longrightarrow>
      countTest output = Inl (CountMismatch 1000001))"
proof -
  have "\<forall>i j. i < j \<and> prefix (js ''Hello, World!'') (drop i output) \<and>
          prefix (js ''Hello, World!'') (drop j output) \<longrightarrow> i + 13 \<le> j"
    using hello_no_overlap by blast
  moreover have "occurrences (js ''Hello, World!'') output =
     card {i. i \<le> length output \<and> prefix (js ''Hello, World!'') (drop i output)}"
    by (rule occurrences_card)
  ultimately show ?thesis
    by (simp add: countTest_occurrences)
qed

theorem countTest_million_witness:
  "countTest (concat (replicate 1000000 (js ''Hello, World!'' @ [10]))) = Inr () \<and>
   countTest (concat (replicate 999999 (js ''Hello, World!'' @ [10]))) = Inl (CountMismatch 999999) \<and>
   countTest (concat (replicate 1000001 (js ''Hello, World!'' @ [10]))) = Inl (CountMismatch 1000001)"
  using countTest_million [of "concat (replicate 1000000 (js ''Hello, World!'' @ [10]))"]
    countTest_million [of "concat (replicate 999999 (js ''Hello, World!'' @ [10]))"]
    countTest_million [of "concat (replicate 1000001 (js ''Hello, World!'' @ [10]))"]
  by (simp only: occurrences_lines)

end
